theory Spec2Isabelle
  imports Main "HOL-Library.Word" "HOL-Library.AList"
begin

section \<open>Shared data model (cache.go, clock.go)\<close>

text \<open>
  Instants and durations are clock ticks. \<open>time.Time.Before\<close> and \<open>After\<close> are the
  strict order on instants, \<open>Add\<close> is addition. Every operation that reads a clock
  (\<open>c.clock.Now()\<close>, \<open>time.Now()\<close>) takes the reading as its argument \<open>now\<close>.
\<close>

type_synonym time = int

text \<open>
  Go errors: the sentinel \<open>ErrKeyNotFound\<close> (\<open>KeyNotFoundError\<close> in simple.go is the
  same sentinel under its older name) and any other error value, as hooks and loaders
  return them.
\<close>

datatype error = ErrKeyNotFound | OtherError string

text \<open>
  The callbacks \<open>evictedFunc\<close>, \<open>addedFunc\<close> and \<open>purgeVisitorFunc\<close> are user code
  whose only observable effect here is that they were called: every call is appended to
  the log \<open>events\<close> of the cache, and the configuration says whether the callback is
  set (not \<open>nil\<close>).
\<close>

datatype ('k, 'v) event = Evicted 'k 'v | Added 'k 'v | PurgeVisited 'k 'v

text \<open>
  \<open>cacheItem\<close>: the value and the optional expiration instant. The key of an item is
  the key under which the map holds it; its clock is the clock of the cache.
\<close>

record 'v cacheItem =
  item_value :: 'v
  item_expiration :: "time option"

text \<open>\<open>cacheItem.IsExpired\<close>: no expiration never expires; otherwise \<open>expiration.Before(now)\<close>.\<close>

definition IsExpired :: "('v, 'x) cacheItem_scheme \<Rightarrow> time \<Rightarrow> bool" where
  "IsExpired item now =
     (case item_expiration item of None \<Rightarrow> False | Some e \<Rightarrow> e < now)"

text \<open>
  \<open>baseCache\<close>. A Go result \<open>(interface{}, error)\<close> is a pair of options (\<open>None\<close> is
  \<open>nil\<close>). A serialize hook either fails or yields the value to store. The counters of
  \<open>stats\<close> are the fields \<open>hitCount\<close> and \<open>missCount\<close>.
\<close>

record ('k, 'v) baseCache =
  csize :: int
  expiration :: "time option"
  loaderExpireFunc :: "('k \<Rightarrow> 'v \<times> time option \<times> error option) option"
  evictedFunc :: bool
  purgeVisitorFunc :: bool
  addedFunc :: bool
  deserializeFunc :: "('k \<Rightarrow> 'v \<Rightarrow> 'v option \<times> error option) option"
  serializeFunc :: "('k \<Rightarrow> 'v \<Rightarrow> error + 'v) option"
  hitCount :: nat
  missCount :: nat
  events :: "('k, 'v) event list"

text \<open>
  \<open>CacheBuilder\<close> without its clock (see above) and its \<open>tp\<close> (the engine is chosen by
  calling \<open>newSimpleCache\<close>, \<open>newLFUCache\<close> or \<open>newARC\<close>), and \<open>buildCache\<close>, which
  copies the settings and starts with fresh counters. \<open>Build\<close> panics unless the size
  is positive or the engine is Simple.
\<close>

record ('k, 'v) CacheBuilder =
  b_size :: int
  b_loaderExpireFunc :: "('k \<Rightarrow> 'v \<times> time option \<times> error option) option"
  b_evictedFunc :: bool
  b_purgeVisitorFunc :: bool
  b_addedFunc :: bool
  b_expiration :: "time option"
  b_deserializeFunc :: "('k \<Rightarrow> 'v \<Rightarrow> 'v option \<times> error option) option"
  b_serializeFunc :: "('k \<Rightarrow> 'v \<Rightarrow> error + 'v) option"

definition New :: "int \<Rightarrow> ('k, 'v) CacheBuilder" where
  "New n =
     \<lparr>b_size = n, b_loaderExpireFunc = None, b_evictedFunc = False,
      b_purgeVisitorFunc = False, b_addedFunc = False, b_expiration = None,
      b_deserializeFunc = None, b_serializeFunc = None\<rparr>"

definition buildCache :: "('k, 'v) CacheBuilder \<Rightarrow> ('k, 'v) baseCache" where
  "buildCache cb =
     \<lparr>csize = b_size cb, expiration = b_expiration cb,
      loaderExpireFunc = b_loaderExpireFunc cb, evictedFunc = b_evictedFunc cb,
      purgeVisitorFunc = b_purgeVisitorFunc cb, addedFunc = b_addedFunc cb,
      deserializeFunc = b_deserializeFunc cb, serializeFunc = b_serializeFunc cb,
      hitCount = 0, missCount = 0, events = []\<rparr>"

text \<open>
  Modelled from the spec: the statistics counters (stats.go is not among the sources).
  \<open>IncrHitCount\<close> adds one to the hit counter, \<open>IncrMissCount\<close> one to the miss counter.
\<close>

definition IncrHitCount :: "('k, 'v, 'x) baseCache_scheme \<Rightarrow> ('k, 'v, 'x) baseCache_scheme" where
  "IncrHitCount c = c\<lparr>hitCount := hitCount c + 1\<rparr>"

definition IncrMissCount :: "('k, 'v, 'x) baseCache_scheme \<Rightarrow> ('k, 'v, 'x) baseCache_scheme" where
  "IncrMissCount c = c\<lparr>missCount := missCount c + 1\<rparr>"

text \<open>\<open>if c.evictedFunc != nil { c.evictedFunc(key, value) }\<close>, and the same for the others.\<close>

definition call_evicted ::
  "'k \<Rightarrow> 'v \<Rightarrow> ('k, 'v, 'x) baseCache_scheme \<Rightarrow> ('k, 'v, 'x) baseCache_scheme" where
  "call_evicted key v c = (if evictedFunc c then c\<lparr>events := events c @ [Evicted key v]\<rparr> else c)"

definition call_added ::
  "'k \<Rightarrow> 'v \<Rightarrow> ('k, 'v, 'x) baseCache_scheme \<Rightarrow> ('k, 'v, 'x) baseCache_scheme" where
  "call_added key v c = (if addedFunc c then c\<lparr>events := events c @ [Added key v]\<rparr> else c)"

definition call_purgeVisitor ::
  "('k \<times> 'v) list \<Rightarrow> ('k, 'v, 'x) baseCache_scheme \<Rightarrow> ('k, 'v, 'x) baseCache_scheme" where
  "call_purgeVisitor kvs c =
     (if purgeVisitorFunc c
      then c\<lparr>events := events c @ map (\<lambda>(k, v). PurgeVisited k v) kvs\<rparr> else c)"

text \<open>The first lines of every \<open>set\<close>: the serialize hook, when there is one.\<close>

definition serialize :: "('k, 'v, 'x) baseCache_scheme \<Rightarrow> 'k \<Rightarrow> 'v \<Rightarrow> error + 'v" where
  "serialize c key v = (case serializeFunc c of None \<Rightarrow> Inr v | Some f \<Rightarrow> f key v)"

text \<open>The last lines of every \<open>get\<close>: the deserialize hook, when there is one.\<close>

definition deserialize ::
  "('k, 'v, 'x) baseCache_scheme \<Rightarrow> 'k \<Rightarrow> 'v \<Rightarrow> 'v option \<times> error option" where
  "deserialize c key v =
     (case deserializeFunc c of None \<Rightarrow> (Some v, None) | Some f \<Rightarrow> f key v)"

text \<open>
  A Go map is an association list with distinct keys; \<open>range\<close> visits it in list order
  (Go leaves the order open, and so every list order is a possible run).
  \<open>item.expiration = &t\<close> through the pointer that \<open>set\<close> returned is an update of the
  item stored under the key.
\<close>

definition set_item_expiration ::
  "'k \<Rightarrow> time \<Rightarrow> ('k \<times> ('v, 'x) cacheItem_scheme) list \<Rightarrow> ('k \<times> ('v, 'x) cacheItem_scheme) list" where
  "set_item_expiration key t al =
     (case map_of al key of None \<Rightarrow> al
      | Some item \<Rightarrow> AList.update key (item\<lparr>item_expiration := Some t\<rparr>) al)"

definition has_item :: "('k \<times> ('v, 'x) cacheItem_scheme) list \<Rightarrow> 'k \<Rightarrow> time \<Rightarrow> bool" where
  "has_item al key now =
     (case map_of al key of None \<Rightarrow> False | Some item \<Rightarrow> \<not> IsExpired item now)"


section \<open>The Simple engine (simple.go)\<close>

record ('k, 'v) SimpleCache = "('k, 'v) baseCache" +
  items :: "('k \<times> 'v cacheItem) list"

definition simple_init :: "('k, 'v) SimpleCache \<Rightarrow> ('k, 'v) SimpleCache" where
  "simple_init c = c\<lparr>items := []\<rparr>"

definition newSimpleCache :: "('k, 'v) CacheBuilder \<Rightarrow> ('k, 'v) SimpleCache" where
  "newSimpleCache cb = simple_init (baseCache.extend (buildCache cb) (SimpleCache.fields []))"

definition simple_remove :: "'k \<Rightarrow> ('k, 'v) SimpleCache \<Rightarrow> bool \<times> ('k, 'v) SimpleCache" where
  "simple_remove key c =
     (case map_of (items c) key of
        Some item \<Rightarrow>
          (True, call_evicted key (item_value item) (c\<lparr>items := AList.delete key (items c)\<rparr>))
      | None \<Rightarrow> (False, c))"

text \<open>
  \<open>SimpleCache.evict\<close>: the scan over the map collects the keys whose removal is
  deferred (an item that passes the test \<open>item.expiration == nil || now.After(*item.expiration)\<close>,
  here \<open>evictable\<close>), at most \<open>count\<close> of them; the deferred removals then run
  last-in first-out.
\<close>

definition evictable :: "'v cacheItem \<Rightarrow> time \<Rightarrow> bool" where
  "evictable item now = (case item_expiration item of None \<Rightarrow> True | Some e \<Rightarrow> now > e)"

fun evict_scan :: "('k \<times> 'v cacheItem) list \<Rightarrow> int \<Rightarrow> int \<Rightarrow> time \<Rightarrow> 'k list" where
  "evict_scan [] current count now = []"
| "evict_scan ((key, item) # rest) current count now =
     (if current \<ge> count then []
      else if evictable item now
           then key # evict_scan rest (current + 1) count now
           else evict_scan rest current count now)"

definition simple_evict :: "int \<Rightarrow> time \<Rightarrow> ('k, 'v) SimpleCache \<Rightarrow> ('k, 'v) SimpleCache" where
  "simple_evict count now c =
     fold (\<lambda>key c'. snd (simple_remove key c')) (rev (evict_scan (items c) 0 count now)) c"

definition simple_set ::
  "'k \<Rightarrow> 'v \<Rightarrow> time \<Rightarrow> ('k, 'v) SimpleCache \<Rightarrow> error + ('k, 'v) SimpleCache" where
  "simple_set key v0 now c =
     (case serialize c key v0 of
        Inl err \<Rightarrow> Inl err
      | Inr v \<Rightarrow>
          let c1 = (case map_of (items c) key of
                      Some item \<Rightarrow>
                        c\<lparr>items := AList.update key (item\<lparr>item_value := v\<rparr>) (items c)\<rparr>
                    | None \<Rightarrow>
                        let c' = (if int (length (items c)) \<ge> csize c \<and> csize c > 0
                                  then simple_evict 1 now c else c)
                        in c'\<lparr>items := AList.update key
                                 \<lparr>item_value = v, item_expiration = None\<rparr> (items c')\<rparr>);
              c2 = (case expiration c1 of
                      None \<Rightarrow> c1
                    | Some d \<Rightarrow> c1\<lparr>items := set_item_expiration key (now + d) (items c1)\<rparr>)
          in Inr (call_added key v c2))"

definition simple_getValue ::
  "'k \<Rightarrow> bool \<Rightarrow> time \<Rightarrow> ('k, 'v) SimpleCache \<Rightarrow> (error + 'v) \<times> ('k, 'v) SimpleCache" where
  "simple_getValue key onLoad now c =
     (case map_of (items c) key of
        Some item \<Rightarrow>
          if \<not> IsExpired item now
          then (Inr (item_value item), if \<not> onLoad then IncrHitCount c else c)
          else let c' = snd (simple_remove key c)
               in (Inl ErrKeyNotFound, if \<not> onLoad then IncrMissCount c' else c')
      | None \<Rightarrow> (Inl ErrKeyNotFound, if \<not> onLoad then IncrMissCount c else c))"

definition simple_get ::
  "'k \<Rightarrow> bool \<Rightarrow> time \<Rightarrow> ('k, 'v) SimpleCache
     \<Rightarrow> ('v option \<times> error option) \<times> ('k, 'v) SimpleCache" where
  "simple_get key onLoad now c =
     (case simple_getValue key onLoad now c of
        (Inl err, c') \<Rightarrow> ((None, Some err), c')
      | (Inr v, c') \<Rightarrow> (deserialize c' key v, c'))"

definition simple_Existed :: "'k \<Rightarrow> time \<Rightarrow> ('k, 'v) SimpleCache \<Rightarrow> bool" where
  "simple_Existed key now c = has_item (items c) key now"

definition simple_Remove :: "'k \<Rightarrow> ('k, 'v) SimpleCache \<Rightarrow> bool \<times> ('k, 'v) SimpleCache" where
  "simple_Remove key c = simple_remove key c"

definition simple_GetALL :: "bool \<Rightarrow> time \<Rightarrow> ('k, 'v) SimpleCache \<Rightarrow> ('k \<times> 'v) list" where
  "simple_GetALL checkExpired now c =
     map (\<lambda>(k, item). (k, item_value item))
       (filter (\<lambda>(k, item). \<not> checkExpired \<or> has_item (items c) k now) (items c))"

definition simple_Keys :: "bool \<Rightarrow> time \<Rightarrow> ('k, 'v) SimpleCache \<Rightarrow> 'k list" where
  "simple_Keys checkExpired now c =
     filter (\<lambda>k. \<not> checkExpired \<or> has_item (items c) k now) (map fst (items c))"

definition simple_Len :: "bool \<Rightarrow> time \<Rightarrow> ('k, 'v) SimpleCache \<Rightarrow> int" where
  "simple_Len checkExpired now c =
     (if \<not> checkExpired then int (length (items c))
      else int (length (filter (\<lambda>k. has_item (items c) k now) (map fst (items c)))))"

definition simple_Purge :: "('k, 'v) SimpleCache \<Rightarrow> ('k, 'v) SimpleCache" where
  "simple_Purge c =
     simple_init (call_purgeVisitor (map (\<lambda>(k, item). (k, item_value item)) (items c)) c)"


section \<open>The LFU engine (lfu.go)\<close>

text \<open>
  \<open>freqEntry\<close>: \<open>freq\<close> is a Go \<open>uint\<close> (64 bits, \<open>+\<close> wraps); the set of item pointers
  is a list of keys, an item pointer being modelled by the key whose item it is.
  \<open>lfuItem.freqElement\<close> points to an element of \<open>freqList\<close>; as elements are never
  removed from that list and only ever inserted behind its last element, the pointer is
  the position of the element in the list. A position outside the list has no
  counterpart in the source; an operation that would follow it reports a failure
  (\<open>None\<close>), as it does for a Go panic.
\<close>

record 'k freqEntry =
  freq :: "64 word"
  fe_items :: "'k list"

record 'v lfuItem = "'v cacheItem" +
  freqElement :: nat

record ('k, 'v) lfuCache = "('k, 'v) baseCache" +
  lfu_items :: "('k \<times> 'v lfuItem) list"
  freqList :: "'k freqEntry list"

definition lfu_init :: "('k, 'v) lfuCache \<Rightarrow> ('k, 'v) lfuCache" where
  "lfu_init c = c\<lparr>lfu_items := [], freqList := [\<lparr>freq = 0, fe_items = []\<rparr>]\<rparr>"

definition newLFUCache :: "('k, 'v) CacheBuilder \<Rightarrow> ('k, 'v) lfuCache" where
  "newLFUCache cb = lfu_init (baseCache.extend (buildCache cb) (lfuCache.fields [] []))"

definition lfu_removeItem :: "'k \<Rightarrow> 'v lfuItem \<Rightarrow> ('k, 'v) lfuCache \<Rightarrow> ('k, 'v) lfuCache" where
  "lfu_removeItem key item c =
     (let fl = freqList c; idx = freqElement item;
          fl' = (if idx < length fl
                 then fl[idx := (fl ! idx)\<lparr>fe_items := removeAll key (fe_items (fl ! idx))\<rparr>]
                 else fl)
      in call_evicted key (item_value item)
           (c\<lparr>lfu_items := AList.delete key (lfu_items c), freqList := fl'\<rparr>))"

definition lfu_remove :: "'k \<Rightarrow> ('k, 'v) lfuCache \<Rightarrow> bool \<times> ('k, 'v) lfuCache" where
  "lfu_remove key c =
     (case map_of (lfu_items c) key of
        Some item \<Rightarrow> (True, lfu_removeItem key item c)
      | None \<Rightarrow> (False, c))"

definition lfu_Remove :: "'k \<Rightarrow> ('k, 'v) lfuCache \<Rightarrow> bool \<times> ('k, 'v) lfuCache" where
  "lfu_Remove key c = lfu_remove key c"

text \<open>
  \<open>lfuCache.evict\<close>. The inner loop ranges over the items of one bucket and removes them
  until \<open>i\<close> reaches \<open>count\<close>; the outer loop walks the buckets from the front.
\<close>

fun evict_items ::
  "'k list \<Rightarrow> int \<Rightarrow> int \<Rightarrow> ('k, 'v) lfuCache \<Rightarrow> int \<times> ('k, 'v) lfuCache" where
  "evict_items [] i count c = (i, c)"
| "evict_items (key # ks) i count c =
     (if i \<ge> count then (i, c)
      else evict_items ks (i + 1) count
             (case map_of (lfu_items c) key of
                None \<Rightarrow> c | Some item \<Rightarrow> lfu_removeItem key item c))"

fun evict_entries :: "nat list \<Rightarrow> int \<Rightarrow> int \<Rightarrow> ('k, 'v) lfuCache \<Rightarrow> ('k, 'v) lfuCache" where
  "evict_entries [] i count c = c"
| "evict_entries (e # es) i count c =
     (if i < count
      then (case evict_items (fe_items (freqList c ! e)) i count c of
              (i', c') \<Rightarrow> evict_entries es i' count c')
      else c)"

definition lfu_evict :: "int \<Rightarrow> ('k, 'v) lfuCache \<Rightarrow> ('k, 'v) lfuCache" where
  "lfu_evict count c = evict_entries [0..<length (freqList c)] 0 count c"

definition lfu_set ::
  "'k \<Rightarrow> 'v \<Rightarrow> time \<Rightarrow> ('k, 'v) lfuCache \<Rightarrow> (error + ('k, 'v) lfuCache) option" where
  "lfu_set key v0 now c =
     (case serialize c key v0 of
        Inl err \<Rightarrow> Some (Inl err)
      | Inr v \<Rightarrow>
          (case (case map_of (lfu_items c) key of
                   Some item \<Rightarrow>
                     Some (c\<lparr>lfu_items := AList.update key (item\<lparr>item_value := v\<rparr>) (lfu_items c)\<rparr>)
                 | None \<Rightarrow>
                     let c' = (if int (length (lfu_items c)) \<ge> csize c then lfu_evict 1 c else c)
                     in (case freqList c' of
                           [] \<Rightarrow> None
                         | fe # rest \<Rightarrow>
                             Some (c'\<lparr>freqList := fe\<lparr>fe_items := List.insert key (fe_items fe)\<rparr> # rest,
                                      lfu_items := AList.update key
                                        \<lparr>item_value = v, item_expiration = None, freqElement = 0\<rparr>
                                        (lfu_items c')\<rparr>))) of
             None \<Rightarrow> None
           | Some c1 \<Rightarrow>
               let c2 = (case expiration c1 of
                           None \<Rightarrow> c1
                         | Some d \<Rightarrow>
                             c1\<lparr>lfu_items := set_item_expiration key (now + d) (lfu_items c1)\<rparr>)
               in Some (Inr (call_added key v c2))))"

definition lfu_SetWithExpire ::
  "'k \<Rightarrow> 'v \<Rightarrow> time \<Rightarrow> time \<Rightarrow> ('k, 'v) lfuCache \<Rightarrow> (error + ('k, 'v) lfuCache) option" where
  "lfu_SetWithExpire key v d now c =
     (case lfu_set key v now c of
        None \<Rightarrow> None
      | Some (Inl err) \<Rightarrow> Some (Inl err)
      | Some (Inr c') \<Rightarrow>
          Some (Inr (c'\<lparr>lfu_items := set_item_expiration key (now + d) (lfu_items c')\<rparr>)))"

definition lfu_Set ::
  "'k \<Rightarrow> 'v \<Rightarrow> time \<Rightarrow> ('k, 'v) lfuCache \<Rightarrow> (error + ('k, 'v) lfuCache) option" where
  "lfu_Set key v now c = lfu_set key v now c"

definition lfu_increment ::
  "'k \<Rightarrow> 'v lfuItem \<Rightarrow> ('k, 'v) lfuCache \<Rightarrow> ('k, 'v) lfuCache option" where
  "lfu_increment key item c =
     (let fl = freqList c; idx = freqElement item
      in if idx \<ge> length fl then None
         else
           let nextFreq = freq (fl ! idx) + 1;
               fl1 = fl[idx := (fl ! idx)\<lparr>fe_items := removeAll key (fe_items (fl ! idx))\<rparr>];
               fl2 = (if Suc idx < length fl1 then fl1
                      else fl1 @ [\<lparr>freq = nextFreq, fe_items = []\<rparr>]);
               fl3 = fl2[Suc idx :=
                       (fl2 ! Suc idx)\<lparr>fe_items := List.insert key (fe_items (fl2 ! Suc idx))\<rparr>]
           in Some (c\<lparr>freqList := fl3,
                      lfu_items := AList.update key (item\<lparr>freqElement := Suc idx\<rparr>) (lfu_items c)\<rparr>))"

definition lfu_getValue ::
  "'k \<Rightarrow> bool \<Rightarrow> time \<Rightarrow> ('k, 'v) lfuCache \<Rightarrow> ((error + 'v) \<times> ('k, 'v) lfuCache) option" where
  "lfu_getValue key onLoad now c =
     (case map_of (lfu_items c) key of
        Some item \<Rightarrow>
          if \<not> IsExpired item now
          then (case lfu_increment key item c of
                  None \<Rightarrow> None
                | Some c' \<Rightarrow>
                    Some (Inr (item_value item), if \<not> onLoad then IncrHitCount c' else c'))
          else let c' = lfu_removeItem key item c
               in Some (Inl ErrKeyNotFound, if \<not> onLoad then IncrMissCount c' else c')
      | None \<Rightarrow> Some (Inl ErrKeyNotFound, if \<not> onLoad then IncrMissCount c else c))"

definition lfu_get ::
  "'k \<Rightarrow> bool \<Rightarrow> time \<Rightarrow> ('k, 'v) lfuCache
     \<Rightarrow> (('v option \<times> error option) \<times> ('k, 'v) lfuCache) option" where
  "lfu_get key onLoad now c =
     (case lfu_getValue key onLoad now c of
        None \<Rightarrow> None
      | Some (Inl err, c') \<Rightarrow> Some ((None, Some err), c')
      | Some (Inr v, c') \<Rightarrow> Some (deserialize c' key v, c'))"

definition lfu_Existed :: "'k \<Rightarrow> time \<Rightarrow> ('k, 'v) lfuCache \<Rightarrow> bool" where
  "lfu_Existed key now c = has_item (lfu_items c) key now"

definition lfu_GetALL :: "bool \<Rightarrow> time \<Rightarrow> ('k, 'v) lfuCache \<Rightarrow> ('k \<times> 'v) list" where
  "lfu_GetALL checkExpired now c =
     map (\<lambda>(k, item). (k, item_value item))
       (filter (\<lambda>(k, item). \<not> checkExpired \<or> has_item (lfu_items c) k now) (lfu_items c))"

definition lfu_Keys :: "bool \<Rightarrow> time \<Rightarrow> ('k, 'v) lfuCache \<Rightarrow> 'k list" where
  "lfu_Keys checkExpired now c =
     filter (\<lambda>k. \<not> checkExpired \<or> has_item (lfu_items c) k now) (map fst (lfu_items c))"

definition lfu_Len :: "bool \<Rightarrow> time \<Rightarrow> ('k, 'v) lfuCache \<Rightarrow> int" where
  "lfu_Len checkExpired now c =
     (if \<not> checkExpired then int (length (lfu_items c))
      else int (length (filter (\<lambda>k. has_item (lfu_items c) k now) (map fst (lfu_items c)))))"

definition lfu_Purge :: "('k, 'v) lfuCache \<Rightarrow> ('k, 'v) lfuCache" where
  "lfu_Purge c =
     lfu_init (call_purgeVisitor (map (\<lambda>(k, item). (k, item_value item)) (lfu_items c)) c)"


section \<open>The ARC engine (arc.go)\<close>

text \<open>
  \<open>arcList\<close> keeps a linked list of keys and a map from each key to its list element:
  a list of keys without repetition, the front first. \<open>RemoveTail\<close> on an empty list
  dereferences \<open>nil\<close>, a panic (\<open>None\<close>).
\<close>

definition al_Has :: "'k list \<Rightarrow> 'k \<Rightarrow> bool" where
  "al_Has l key = (key \<in> set l)"

definition al_PushFront :: "'k \<Rightarrow> 'k list \<Rightarrow> 'k list" where
  "al_PushFront key l = (if key \<in> set l then key # remove1 key l else key # l)"

definition al_MoveToFront :: "'k \<Rightarrow> 'k list \<Rightarrow> 'k list" where
  "al_MoveToFront key l = key # remove1 key l"

definition al_Remove :: "'k \<Rightarrow> 'k list \<Rightarrow> 'k list" where
  "al_Remove key l = remove1 key l"

definition al_RemoveTail :: "'k list \<Rightarrow> ('k \<times> 'k list) option" where
  "al_RemoveTail l = (if l = [] then None else Some (last l, butlast l))"

definition al_Len :: "'k list \<Rightarrow> int" where
  "al_Len l = int (length l)"

text \<open>
  Modelled from the spec: \<open>minInt\<close> and \<open>maxInt\<close> (their file is not among the sources),
  the \<open>min\<close> and \<open>max\<close> of the adaptation formulas.
\<close>

definition minInt :: "int \<Rightarrow> int \<Rightarrow> int" where
  "minInt a b = (if a < b then a else b)"

definition maxInt :: "int \<Rightarrow> int \<Rightarrow> int" where
  "maxInt a b = (if a > b then a else b)"

record ('k, 'v) arcCache = "('k, 'v) baseCache" +
  arc_items :: "('k \<times> 'v cacheItem) list"
  part :: int
  t1 :: "'k list"
  t2 :: "'k list"
  b1 :: "'k list"
  b2 :: "'k list"

definition arc_init :: "('k, 'v) arcCache \<Rightarrow> ('k, 'v) arcCache" where
  "arc_init c = c\<lparr>arc_items := [], t1 := [], t2 := [], b1 := [], b2 := []\<rparr>"

definition newARC :: "('k, 'v) CacheBuilder \<Rightarrow> ('k, 'v) arcCache" where
  "newARC cb =
     arc_init (baseCache.extend (buildCache cb) (arcCache.fields [] 0 [] [] [] []))"

definition isCacheFull :: "('k, 'v) arcCache \<Rightarrow> bool" where
  "isCacheFull c = (al_Len (t1 c) + al_Len (t2 c) = csize c)"

definition setPart :: "int \<Rightarrow> ('k, 'v) arcCache \<Rightarrow> ('k, 'v) arcCache" where
  "setPart p c = (if isCacheFull c then c\<lparr>part := p\<rparr> else c)"

text \<open>
  \<open>item, ok := c.items[old]; if ok { delete(c.items, old); evictedFunc(item.key, item.value) }\<close>,
  as \<open>replace\<close> and \<open>set\<close> both do it.
\<close>

definition arc_drop_item :: "'k \<Rightarrow> ('k, 'v) arcCache \<Rightarrow> ('k, 'v) arcCache" where
  "arc_drop_item old c =
     (case map_of (arc_items c) old of
        Some item \<Rightarrow>
          call_evicted old (item_value item) (c\<lparr>arc_items := AList.delete old (arc_items c)\<rparr>)
      | None \<Rightarrow> c)"

definition arc_replace :: "'k \<Rightarrow> ('k, 'v) arcCache \<Rightarrow> ('k, 'v) arcCache option" where
  "arc_replace key c =
     (if \<not> isCacheFull c then Some c
      else
        (case (if al_Len (t1 c) > 0 \<and>
                  ((al_Has (b2 c) key \<and> al_Len (t1 c) = part c) \<or> al_Len (t1 c) > part c)
               then (case al_RemoveTail (t1 c) of
                       None \<Rightarrow> None
                     | Some (old, l) \<Rightarrow> Some (old, c\<lparr>t1 := l, b1 := al_PushFront old (b1 c)\<rparr>))
               else if al_Len (t2 c) > 0
               then (case al_RemoveTail (t2 c) of
                       None \<Rightarrow> None
                     | Some (old, l) \<Rightarrow> Some (old, c\<lparr>t2 := l, b2 := al_PushFront old (b2 c)\<rparr>))
               else (case al_RemoveTail (t1 c) of
                       None \<Rightarrow> None
                     | Some (old, l) \<Rightarrow> Some (old, c\<lparr>t1 := l, b1 := al_PushFront old (b1 c)\<rparr>))) of
           None \<Rightarrow> None
         | Some (old, c') \<Rightarrow> Some (arc_drop_item old c')))"

text \<open>
  The part of \<open>arcCache.set\<close> that follows the update of the item map: where the key
  goes among the four lists. (In the two ghost-hit branches the divisor is the length of
  a list that holds the key, so it is never 0.)
\<close>

definition arc_set_lists :: "'k \<Rightarrow> ('k, 'v) arcCache \<Rightarrow> ('k, 'v) arcCache option" where
  "arc_set_lists key c =
     (if al_Has (t1 c) key \<or> al_Has (t2 c) key then Some c
      else if al_Has (b1 c) key then
        (case arc_replace key
                (setPart (minInt (csize c)
                            (part c + maxInt (al_Len (b2 c) div al_Len (b1 c)) 1)) c) of
           None \<Rightarrow> None
         | Some c' \<Rightarrow> Some (c'\<lparr>b1 := al_Remove key (b1 c'), t2 := al_PushFront key (t2 c')\<rparr>))
      else if al_Has (b2 c) key then
        (case arc_replace key
                (setPart (maxInt 0
                            (part c - maxInt (al_Len (b1 c) div al_Len (b2 c)) 1)) c) of
           None \<Rightarrow> None
         | Some c' \<Rightarrow> Some (c'\<lparr>b2 := al_Remove key (b2 c'), t2 := al_PushFront key (t2 c')\<rparr>))
      else
        (case (if isCacheFull c \<and> al_Len (t1 c) + al_Len (b1 c) = csize c
               then (if al_Len (t1 c) < csize c
                     then (case al_RemoveTail (b1 c) of
                             None \<Rightarrow> None
                           | Some (old, l) \<Rightarrow> arc_replace key (c\<lparr>b1 := l\<rparr>))
                     else (case al_RemoveTail (t1 c) of
                             None \<Rightarrow> None
                           | Some (pop, l) \<Rightarrow> Some (arc_drop_item pop (c\<lparr>t1 := l\<rparr>))))
               else
                 (let total = al_Len (t1 c) + al_Len (b1 c) + al_Len (t2 c) + al_Len (b2 c)
                  in if total \<ge> csize c
                     then (case (if total = 2 * csize c
                                 then (if al_Len (b2 c) > 0
                                       then (case al_RemoveTail (b2 c) of
                                               None \<Rightarrow> None
                                             | Some (old, l) \<Rightarrow> Some (c\<lparr>b2 := l\<rparr>))
                                       else (case al_RemoveTail (b1 c) of
                                               None \<Rightarrow> None
                                             | Some (old, l) \<Rightarrow> Some (c\<lparr>b1 := l\<rparr>)))
                                 else Some c) of
                             None \<Rightarrow> None
                           | Some c' \<Rightarrow> arc_replace key c')
                     else Some c)) of
           None \<Rightarrow> None
         | Some c' \<Rightarrow> Some (c'\<lparr>t1 := al_PushFront key (t1 c')\<rparr>)))"

definition arc_set ::
  "'k \<Rightarrow> 'v \<Rightarrow> time \<Rightarrow> ('k, 'v) arcCache \<Rightarrow> (error + ('k, 'v) arcCache) option" where
  "arc_set key v0 now c =
     (case serialize c key v0 of
        Inl err \<Rightarrow> Some (Inl err)
      | Inr v \<Rightarrow>
          let c1 = (case map_of (arc_items c) key of
                      Some item \<Rightarrow>
                        c\<lparr>arc_items := AList.update key (item\<lparr>item_value := v\<rparr>) (arc_items c)\<rparr>
                    | None \<Rightarrow>
                        c\<lparr>arc_items := AList.update key
                             \<lparr>item_value = v, item_expiration = None\<rparr> (arc_items c)\<rparr>);
              c2 = (case expiration c1 of
                      None \<Rightarrow> c1
                    | Some d \<Rightarrow>
                        c1\<lparr>arc_items := set_item_expiration key (now + d) (arc_items c1)\<rparr>)
          in (case arc_set_lists key c2 of
                None \<Rightarrow> None
              | Some c3 \<Rightarrow> Some (Inr (call_added key v c3))))"

text \<open>
  \<open>arcCache.getValue\<close>, its two \<open>if\<close> blocks in turn. Each either returns the value
  (\<open>Inl\<close>) or falls through with the state it leaves (\<open>Inr\<close>); \<open>item.IsExpired\<close> on an
  item that the map does not hold dereferences \<open>nil\<close>.
\<close>

definition arc_getValue_t1 ::
  "'k \<Rightarrow> bool \<Rightarrow> time \<Rightarrow> ('k, 'v) arcCache
     \<Rightarrow> ('v \<times> ('k, 'v) arcCache + ('k, 'v) arcCache) option" where
  "arc_getValue_t1 key onLoad now c =
     (if al_Has (t1 c) key then
        (let c1 = c\<lparr>t1 := al_Remove key (t1 c)\<rparr>
         in case map_of (arc_items c1) key of
              None \<Rightarrow> None
            | Some item \<Rightarrow>
                if \<not> IsExpired item now
                then (let c2 = c1\<lparr>t2 := al_PushFront key (t2 c1)\<rparr>
                      in Some (Inl (item_value item, if \<not> onLoad then IncrHitCount c2 else c2)))
                else Some (Inr (call_evicted key (item_value item)
                                  (c1\<lparr>arc_items := AList.delete key (arc_items c1),
                                      b1 := al_PushFront key (b1 c1)\<rparr>))))
      else Some (Inr c))"

definition arc_getValue_t2 ::
  "'k \<Rightarrow> bool \<Rightarrow> time \<Rightarrow> ('k, 'v) arcCache
     \<Rightarrow> ('v \<times> ('k, 'v) arcCache + ('k, 'v) arcCache) option" where
  "arc_getValue_t2 key onLoad now c =
     (if al_Has (t2 c) key then
        (case map_of (arc_items c) key of
           None \<Rightarrow> None
         | Some item \<Rightarrow>
             if \<not> IsExpired item now
             then (let c2 = c\<lparr>t2 := al_MoveToFront key (t2 c)\<rparr>
                   in Some (Inl (item_value item, if \<not> onLoad then IncrHitCount c2 else c2)))
             else Some (Inr (call_evicted key (item_value item)
                               (c\<lparr>arc_items := AList.delete key (arc_items c),
                                  t2 := al_Remove key (t2 c),
                                  b2 := al_PushFront key (b2 c)\<rparr>))))
      else Some (Inr c))"

definition arc_getValue ::
  "'k \<Rightarrow> bool \<Rightarrow> time \<Rightarrow> ('k, 'v) arcCache \<Rightarrow> ((error + 'v) \<times> ('k, 'v) arcCache) option" where
  "arc_getValue key onLoad now c =
     (case arc_getValue_t1 key onLoad now c of
        None \<Rightarrow> None
      | Some (Inl (v, c')) \<Rightarrow> Some (Inr v, c')
      | Some (Inr c1) \<Rightarrow>
          (case arc_getValue_t2 key onLoad now c1 of
             None \<Rightarrow> None
           | Some (Inl (v, c')) \<Rightarrow> Some (Inr v, c')
           | Some (Inr c2) \<Rightarrow>
               Some (Inl ErrKeyNotFound, if \<not> onLoad then IncrMissCount c2 else c2)))"

definition arc_get ::
  "'k \<Rightarrow> bool \<Rightarrow> time \<Rightarrow> ('k, 'v) arcCache
     \<Rightarrow> (('v option \<times> error option) \<times> ('k, 'v) arcCache) option" where
  "arc_get key onLoad now c =
     (case arc_getValue key onLoad now c of
        None \<Rightarrow> None
      | Some (Inl err, c') \<Rightarrow> Some ((None, Some err), c')
      | Some (Inr v, c') \<Rightarrow> Some (deserialize c' key v, c'))"

text \<open>
  \<open>arcCache.remove\<close>. \<open>item := c.items[key]\<close> is not checked; \<open>item.value\<close> is read only
  for the callback, and panics there if the map did not hold the key.
\<close>

definition arc_remove :: "'k \<Rightarrow> ('k, 'v) arcCache \<Rightarrow> (bool \<times> ('k, 'v) arcCache) option" where
  "arc_remove key c =
     (if al_Has (t1 c) key then
        (let c1 = c\<lparr>t1 := al_Remove key (t1 c), arc_items := AList.delete key (arc_items c),
                    b1 := al_PushFront key (b1 c)\<rparr>
         in if evictedFunc c
            then (case map_of (arc_items c) key of
                    None \<Rightarrow> None
                  | Some item \<Rightarrow> Some (True, call_evicted key (item_value item) c1))
            else Some (True, c1))
      else if al_Has (t2 c) key then
        (let c1 = c\<lparr>t2 := al_Remove key (t2 c), arc_items := AList.delete key (arc_items c),
                    b2 := al_PushFront key (b2 c)\<rparr>
         in if evictedFunc c
            then (case map_of (arc_items c) key of
                    None \<Rightarrow> None
                  | Some item \<Rightarrow> Some (True, call_evicted key (item_value item) c1))
            else Some (True, c1))
      else Some (False, c))"

definition arc_Remove :: "'k \<Rightarrow> ('k, 'v) arcCache \<Rightarrow> (bool \<times> ('k, 'v) arcCache) option" where
  "arc_Remove key c = arc_remove key c"

definition arc_Existed :: "'k \<Rightarrow> time \<Rightarrow> ('k, 'v) arcCache \<Rightarrow> bool" where
  "arc_Existed key now c = has_item (arc_items c) key now"

definition arc_GetALL :: "bool \<Rightarrow> time \<Rightarrow> ('k, 'v) arcCache \<Rightarrow> ('k \<times> 'v) list" where
  "arc_GetALL checkExpired now c =
     map (\<lambda>(k, item). (k, item_value item))
       (filter (\<lambda>(k, item). \<not> checkExpired \<or> has_item (arc_items c) k now) (arc_items c))"

definition arc_Keys :: "bool \<Rightarrow> time \<Rightarrow> ('k, 'v) arcCache \<Rightarrow> 'k list" where
  "arc_Keys checkExpired now c =
     filter (\<lambda>k. \<not> checkExpired \<or> has_item (arc_items c) k now) (map fst (arc_items c))"

definition arc_Len :: "bool \<Rightarrow> time \<Rightarrow> ('k, 'v) arcCache \<Rightarrow> int" where
  "arc_Len checkExpired now c =
     (if \<not> checkExpired then int (length (arc_items c))
      else int (length (filter (\<lambda>k. has_item (arc_items c) k now) (map fst (arc_items c)))))"

definition arc_Purge :: "('k, 'v) arcCache \<Rightarrow> ('k, 'v) arcCache" where
  "arc_Purge c =
     arc_init (call_purgeVisitor (map (\<lambda>(k, item). (k, item_value item)) (arc_items c)) c)"


section \<open>The LRU engine\<close>

text \<open>
  Modelled from the spec: the LRU engine (lru.go is not among the sources). The state is
  the recency list of the entries, most recently used at the front, least at the back;
  the mapping from keys to nodes is the index of that list by key (\<open>map_of\<close>). An entry
  is a \<open>cacheItem\<close> and expires as \<open>IsExpired\<close> of cache.go says.
\<close>

record ('k, 'v) LRUCache = "('k, 'v) baseCache" +
  evictList :: "('k \<times> 'v cacheItem) list"

definition lru_init :: "('k, 'v) LRUCache \<Rightarrow> ('k, 'v) LRUCache" where
  "lru_init c = c\<lparr>evictList := []\<rparr>"

definition newLRUCache :: "('k, 'v) CacheBuilder \<Rightarrow> ('k, 'v) LRUCache" where
  "newLRUCache cb = lru_init (baseCache.extend (buildCache cb) (LRUCache.fields []))"

text \<open>
  Modelled from the spec: unlinking a node. It leaves the list and the index, and the
  evicted callback gets its key and value.
\<close>

definition lru_removeElement :: "'k \<Rightarrow> 'v cacheItem \<Rightarrow> ('k, 'v) LRUCache \<Rightarrow> ('k, 'v) LRUCache" where
  "lru_removeElement key item c =
     call_evicted key (item_value item) (c\<lparr>evictList := AList.delete key (evictList c)\<rparr>)"

text \<open>
  Modelled from the spec: evicting the tail, the least recently used entry; nothing to do
  on an empty list.
\<close>

definition lru_evict :: "('k, 'v) LRUCache \<Rightarrow> ('k, 'v) LRUCache" where
  "lru_evict c =
     (if evictList c = [] then c
      else case last (evictList c) of (key, item) \<Rightarrow> lru_removeElement key item c)"

text \<open>
  Modelled from the spec: \<open>set\<close>. A present key has its value replaced and its node moved
  to the front; an absent key is inserted at the front, after the eviction of the tail if
  the list already holds \<open>N\<close> entries. The default expiration and the added callback are
  those of the common engine contract.
\<close>

definition lru_set ::
  "'k \<Rightarrow> 'v \<Rightarrow> time \<Rightarrow> ('k, 'v) LRUCache \<Rightarrow> error + ('k, 'v) LRUCache" where
  "lru_set key v0 now c =
     (case serialize c key v0 of
        Inl err \<Rightarrow> Inl err
      | Inr v \<Rightarrow>
          let c1 = (case map_of (evictList c) key of
                      Some item \<Rightarrow>
                        c\<lparr>evictList :=
                            (key, item\<lparr>item_value := v\<rparr>) # AList.delete key (evictList c)\<rparr>
                    | None \<Rightarrow>
                        let c' = (if int (length (evictList c)) \<ge> csize c then lru_evict c else c)
                        in c'\<lparr>evictList :=
                               (key, \<lparr>item_value = v, item_expiration = None\<rparr>) # evictList c'\<rparr>);
              c2 = (case expiration c1 of
                      None \<Rightarrow> c1
                    | Some d \<Rightarrow> c1\<lparr>evictList := set_item_expiration key (now + d) (evictList c1)\<rparr>)
          in Inr (call_added key v c2))"

text \<open>
  Modelled from the spec: \<open>get\<close>. A hit moves the node to the front; an expired entry is
  evicted and the read is a miss. The counters move only when \<open>onLoad\<close> is false.
\<close>

definition lru_getValue ::
  "'k \<Rightarrow> bool \<Rightarrow> time \<Rightarrow> ('k, 'v) LRUCache \<Rightarrow> (error + 'v) \<times> ('k, 'v) LRUCache" where
  "lru_getValue key onLoad now c =
     (case map_of (evictList c) key of
        Some item \<Rightarrow>
          if \<not> IsExpired item now
          then let c' = c\<lparr>evictList := (key, item) # AList.delete key (evictList c)\<rparr>
               in (Inr (item_value item), if \<not> onLoad then IncrHitCount c' else c')
          else let c' = lru_removeElement key item c
               in (Inl ErrKeyNotFound, if \<not> onLoad then IncrMissCount c' else c')
      | None \<Rightarrow> (Inl ErrKeyNotFound, if \<not> onLoad then IncrMissCount c else c))"

definition lru_get ::
  "'k \<Rightarrow> bool \<Rightarrow> time \<Rightarrow> ('k, 'v) LRUCache \<Rightarrow> ('v option \<times> error option) \<times> ('k, 'v) LRUCache" where
  "lru_get key onLoad now c =
     (case lru_getValue key onLoad now c of
        (Inl err, c') \<Rightarrow> ((None, Some err), c')
      | (Inr v, c') \<Rightarrow> (deserialize c' key v, c'))"

text \<open>
  Modelled from the spec: \<open>remove\<close> unlinks the node of the key and says whether there
  was one.
\<close>

definition lru_remove :: "'k \<Rightarrow> ('k, 'v) LRUCache \<Rightarrow> bool \<times> ('k, 'v) LRUCache" where
  "lru_remove key c =
     (case map_of (evictList c) key of
        Some item \<Rightarrow> (True, lru_removeElement key item c)
      | None \<Rightarrow> (False, c))"

definition lru_Remove :: "'k \<Rightarrow> ('k, 'v) LRUCache \<Rightarrow> bool \<times> ('k, 'v) LRUCache" where
  "lru_Remove key c = lru_remove key c"

text \<open>
  Modelled from the spec: the queries and \<open>Purge\<close> of the common engine contract.
\<close>

definition lru_Existed :: "'k \<Rightarrow> time \<Rightarrow> ('k, 'v) LRUCache \<Rightarrow> bool" where
  "lru_Existed key now c = has_item (evictList c) key now"

definition lru_GetALL :: "bool \<Rightarrow> time \<Rightarrow> ('k, 'v) LRUCache \<Rightarrow> ('k \<times> 'v) list" where
  "lru_GetALL checkExpired now c =
     map (\<lambda>(k, item). (k, item_value item))
       (filter (\<lambda>(k, item). \<not> checkExpired \<or> has_item (evictList c) k now) (evictList c))"

definition lru_Keys :: "bool \<Rightarrow> time \<Rightarrow> ('k, 'v) LRUCache \<Rightarrow> 'k list" where
  "lru_Keys checkExpired now c =
     filter (\<lambda>k. \<not> checkExpired \<or> has_item (evictList c) k now) (map fst (evictList c))"

definition lru_Len :: "bool \<Rightarrow> time \<Rightarrow> ('k, 'v) LRUCache \<Rightarrow> int" where
  "lru_Len checkExpired now c =
     (if \<not> checkExpired then int (length (evictList c))
      else int (length (filter (\<lambda>k. has_item (evictList c) k now) (map fst (evictList c)))))"

definition lru_Purge :: "('k, 'v) LRUCache \<Rightarrow> ('k, 'v) LRUCache" where
  "lru_Purge c =
     lru_init (call_purgeVisitor (map (\<lambda>(k, item). (k, item_value item)) (evictList c)) c)"


section \<open>The facade (cache.go, and its copies in lfu.go)\<close>

text \<open>
  \<open>baseCache.cache\<close> is the engine behind the facade, reached through the \<open>Cache\<close>
  interface: its \<open>set\<close>, \<open>get\<close>, \<open>Remove\<close> and \<open>Purge\<close>, and the write \<open>item.expiration = &t\<close> through the
  item pointer that \<open>set\<close> returned. \<open>None\<close> is a panic. A loader returns a value, an
  optional time to live and an optional error. All clock readings within one call of a facade
  operation are the same instant \<open>now\<close>.
\<close>

record ('k, 'v, 'c) Cache =
  cache_set :: "'k \<Rightarrow> 'v \<Rightarrow> time \<Rightarrow> 'c \<Rightarrow> (error + 'c) option"
  cache_get :: "'k \<Rightarrow> bool \<Rightarrow> time \<Rightarrow> 'c \<Rightarrow> (('v option \<times> error option) \<times> 'c) option"
  cache_set_expiration :: "'k \<Rightarrow> time \<Rightarrow> 'c \<Rightarrow> 'c"
  cache_Remove :: "'k \<Rightarrow> 'c \<Rightarrow> (bool \<times> 'c) option"
  cache_Purge :: "'c \<Rightarrow> 'c"
  cache_loader :: "'c \<Rightarrow> ('k \<Rightarrow> 'v \<times> time option \<times> error option) option"

definition simple_cache :: "('k, 'v, ('k, 'v) SimpleCache) Cache" where
  "simple_cache =
     \<lparr>cache_set = (\<lambda>key v now c. Some (simple_set key v now c)),
      cache_get = (\<lambda>key onLoad now c. Some (simple_get key onLoad now c)),
      cache_set_expiration = (\<lambda>key t c. c\<lparr>items := set_item_expiration key t (items c)\<rparr>),
      cache_Remove = (\<lambda>key c. Some (simple_Remove key c)),
      cache_Purge = simple_Purge,
      cache_loader = loaderExpireFunc\<rparr>"

definition arc_cache :: "('k, 'v, ('k, 'v) arcCache) Cache" where
  "arc_cache =
     \<lparr>cache_set = arc_set,
      cache_get = arc_get,
      cache_set_expiration = (\<lambda>key t c. c\<lparr>arc_items := set_item_expiration key t (arc_items c)\<rparr>),
      cache_Remove = arc_Remove,
      cache_Purge = arc_Purge,
      cache_loader = loaderExpireFunc\<rparr>"

text \<open>
  \<open>lfuCache\<close> has its own \<open>SetWithExpire\<close>, \<open>Get\<close>, \<open>GetIFPresent\<close>, \<open>Refresh\<close> and
  \<open>getWithLoader\<close>; their bodies are those of \<open>baseCache\<close> with \<open>*lfuItem\<close> for
  \<open>*cacheItem\<close>, so the facade below serves the three engines.
\<close>

definition lfu_cache :: "('k, 'v, ('k, 'v) lfuCache) Cache" where
  "lfu_cache =
     \<lparr>cache_set = lfu_set,
      cache_get = lfu_get,
      cache_set_expiration = (\<lambda>key t c. c\<lparr>lfu_items := set_item_expiration key t (lfu_items c)\<rparr>),
      cache_Remove = (\<lambda>key c. Some (lfu_Remove key c)),
      cache_Purge = lfu_Purge,
      cache_loader = loaderExpireFunc\<rparr>"

text \<open>
  Modelled from the spec: the LRU engine behind the same facade (\<open>newLRUCache\<close> in the
  builder).
\<close>

definition lru_cache :: "('k, 'v, ('k, 'v) LRUCache) Cache" where
  "lru_cache =
     \<lparr>cache_set = (\<lambda>key v now c. Some (lru_set key v now c)),
      cache_get = (\<lambda>key onLoad now c. Some (lru_get key onLoad now c)),
      cache_set_expiration =
        (\<lambda>key t c. c\<lparr>evictList := set_item_expiration key t (evictList c)\<rparr>),
      cache_Remove = (\<lambda>key c. Some (lru_Remove key c)),
      cache_Purge = lru_Purge,
      cache_loader = loaderExpireFunc\<rparr>"

definition Set :: "('k, 'v, 'c) Cache \<Rightarrow> 'k \<Rightarrow> 'v \<Rightarrow> time \<Rightarrow> 'c \<Rightarrow> (error option \<times> 'c) option" where
  "Set m key v now c =
     (case cache_set m key v now c of
        None \<Rightarrow> None
      | Some (Inl err) \<Rightarrow> Some (Some err, c)
      | Some (Inr c') \<Rightarrow> Some (None, c'))"

definition SetWithExpire ::
  "('k, 'v, 'c) Cache \<Rightarrow> 'k \<Rightarrow> 'v \<Rightarrow> time \<Rightarrow> time \<Rightarrow> 'c \<Rightarrow> (error option \<times> 'c) option" where
  "SetWithExpire m key v d now c =
     (case cache_set m key v now c of
        None \<Rightarrow> None
      | Some (Inl err) \<Rightarrow> Some (Some err, c)
      | Some (Inr c') \<Rightarrow> Some (None, cache_set_expiration m key (now + d) c'))"

text \<open>
  Modelled from the spec: \<open>Group.Do\<close>, the single-flight coordinator (its file is not
  among the sources). In a sequential run no call for the key is in flight when \<open>do\<close> is
  entered, so it registers a slot, invokes \<open>fn\<close> and returns what \<open>fn\<close> returned
  (the flag says that \<open>fn\<close> was called).
\<close>

definition Group_Do ::
  "'k \<Rightarrow> ('c \<Rightarrow> (('v option \<times> error option) \<times> 'c) option) \<Rightarrow> bool \<Rightarrow> 'c
     \<Rightarrow> (('v option \<times> bool \<times> error option) \<times> 'c) option" where
  "Group_Do key fn isWait c =
     (case fn c of
        None \<Rightarrow> None
      | Some ((v, err), c') \<Rightarrow> Some ((v, True, err), c'))"

text \<open>\<open>baseCache.load\<close>; the loader is a function and does not panic.\<close>

definition load ::
  "'k \<Rightarrow> ('c \<Rightarrow> (('v option \<times> error option) \<times> 'c) option) \<Rightarrow> bool \<Rightarrow> 'c
     \<Rightarrow> (('v option \<times> bool \<times> error option) \<times> 'c) option" where
  "load key fn isWait c =
     (case Group_Do key fn isWait c of
        None \<Rightarrow> None
      | Some ((v, called, err), c') \<Rightarrow>
          (case err of
             Some e \<Rightarrow> Some ((None, called, Some e), c')
           | None \<Rightarrow> Some ((v, called, None), c')))"

text \<open>The callback that \<open>getWithLoader\<close> hands to \<open>load\<close>, applied to what the loader returned.\<close>

definition loader_callback ::
  "('k, 'v, 'c) Cache \<Rightarrow> 'k \<Rightarrow> time \<Rightarrow> 'v \<times> time option \<times> error option \<Rightarrow> 'c
     \<Rightarrow> (('v option \<times> error option) \<times> 'c) option" where
  "loader_callback m key now r c =
     (case r of
        (v, exp, Some e) \<Rightarrow> Some ((None, Some e), c)
      | (v, exp, None) \<Rightarrow>
          (case cache_set m key v now c of
             None \<Rightarrow> None
           | Some (Inl err) \<Rightarrow> Some ((None, Some err), c)
           | Some (Inr c') \<Rightarrow>
               Some ((Some v, None),
                     (case exp of
                        None \<Rightarrow> c'
                      | Some d \<Rightarrow> cache_set_expiration m key (now + d) c'))))"

definition getWithLoader ::
  "('k, 'v, 'c) Cache \<Rightarrow> 'k \<Rightarrow> bool \<Rightarrow> time \<Rightarrow> 'c
     \<Rightarrow> (('v option \<times> error option) \<times> 'c) option" where
  "getWithLoader m key isWait now c =
     (case cache_loader m c of
        None \<Rightarrow> Some ((None, Some ErrKeyNotFound), c)
      | Some loader \<Rightarrow>
          (case load key (loader_callback m key now (loader key)) isWait c of
             None \<Rightarrow> None
           | Some ((v, called, err), c') \<Rightarrow>
               (case err of
                  Some e \<Rightarrow> Some ((None, Some e), c')
                | None \<Rightarrow> Some ((v, None), c'))))"

definition Get ::
  "('k, 'v, 'c) Cache \<Rightarrow> 'k \<Rightarrow> time \<Rightarrow> 'c \<Rightarrow> (('v option \<times> error option) \<times> 'c) option" where
  "Get m key now c =
     (case cache_get m key False now c of
        None \<Rightarrow> None
      | Some ((v, err), c') \<Rightarrow>
          if err = Some ErrKeyNotFound then getWithLoader m key True now c'
          else Some ((v, err), c'))"

definition GetIFPresent ::
  "('k, 'v, 'c) Cache \<Rightarrow> 'k \<Rightarrow> time \<Rightarrow> 'c \<Rightarrow> (('v option \<times> error option) \<times> 'c) option" where
  "GetIFPresent m key now c =
     (case cache_get m key False now c of
        None \<Rightarrow> None
      | Some ((v, err), c') \<Rightarrow>
          if err = Some ErrKeyNotFound then getWithLoader m key False now c'
          else Some ((v, None), c'))"

definition Refresh ::
  "('k, 'v, 'c) Cache \<Rightarrow> 'k \<Rightarrow> time \<Rightarrow> 'c \<Rightarrow> (('v option \<times> error option) \<times> 'c) option" where
  "Refresh m key now c = getWithLoader m key True now c"


section \<open>Runs of a cache\<close>

text \<open>
  The operations of the public surface that change a cache, each with the clock reading
  at which it runs, and the run of a list of them from a given state. A run that
  panics has no final state (\<open>None\<close>).
\<close>

datatype ('k, 'v) op =
    OpSet 'k 'v
  | OpSetWithExpire 'k 'v time
  | OpGet 'k
  | OpGetIFPresent 'k
  | OpRefresh 'k
  | OpRemove 'k
  | OpPurge

definition apply_op :: "('k, 'v, 'c) Cache \<Rightarrow> time \<times> ('k, 'v) op \<Rightarrow> 'c \<Rightarrow> 'c option" where
  "apply_op m x c =
     (case x of
        (now, OpSet key v) \<Rightarrow> map_option snd (Set m key v now c)
      | (now, OpSetWithExpire key v d) \<Rightarrow> map_option snd (SetWithExpire m key v d now c)
      | (now, OpGet key) \<Rightarrow> map_option snd (Get m key now c)
      | (now, OpGetIFPresent key) \<Rightarrow> map_option snd (GetIFPresent m key now c)
      | (now, OpRefresh key) \<Rightarrow> map_option snd (Refresh m key now c)
      | (now, OpRemove key) \<Rightarrow> map_option snd (cache_Remove m key c)
      | (now, OpPurge) \<Rightarrow> Some (cache_Purge m c))"

fun run :: "('k, 'v, 'c) Cache \<Rightarrow> (time \<times> ('k, 'v) op) list \<Rightarrow> 'c \<Rightarrow> 'c option" where
  "run m [] c = Some c"
| "run m (x # xs) c = (case apply_op m x c of None \<Rightarrow> None | Some c' \<Rightarrow> run m xs c')"


section \<open>Invariants\<close>

text \<open>
  The LFU engine: the bucket list is not empty; the bucket at position \<open>i\<close> has
  frequency \<open>i\<close> (as a \<open>uint\<close>); keys are not repeated in the map nor within a bucket;
  every item of the map is in the bucket it points to; and every bucket holds only
  items of the map that point to it.
\<close>

definition lfu_inv :: "('k, 'v) lfuCache \<Rightarrow> bool" where
  "lfu_inv c =
     (freqList c \<noteq> [] \<and>
      map freq (freqList c) = map of_nat [0..<length (freqList c)] \<and>
      distinct (map fst (lfu_items c)) \<and>
      list_all (\<lambda>fe. distinct (fe_items fe)) (freqList c) \<and>
      list_all (\<lambda>(k, item). freqElement item < length (freqList c) \<and>
                  k \<in> set (fe_items (freqList c ! freqElement item))) (lfu_items c) \<and>
      list_all (\<lambda>i. list_all (\<lambda>k. case map_of (lfu_items c) k of
                                       None \<Rightarrow> False
                                     | Some item \<Rightarrow> freqElement item = i)
                           (fe_items (freqList c ! i)))
        [0..<length (freqList c)])"

text \<open>
  The ARC engine: a positive size; no key twice in a list, no key in two lists; the map
  holds exactly the keys of \<open>T1\<close> and \<open>T2\<close>, each once; \<open>|T1| + |T2| \<le> N\<close>; the four
  lists together hold at most \<open>2N\<close> keys; and \<open>0 \<le> p \<le> N\<close>.
\<close>

definition arc_inv :: "('k, 'v) arcCache \<Rightarrow> bool" where
  "arc_inv c =
     (0 < csize c \<and>
      distinct (t1 c @ t2 c @ b1 c @ b2 c) \<and>
      distinct (map fst (arc_items c)) \<and>
      set (map fst (arc_items c)) = set (t1 c @ t2 c) \<and>
      al_Len (t1 c) + al_Len (t2 c) \<le> csize c \<and>
      al_Len (t1 c) + al_Len (t2 c) + al_Len (b1 c) + al_Len (b2 c) \<le> 2 * csize c \<and>
      0 \<le> part c \<and> part c \<le> csize c)"

text \<open>
  What holds in addition while nothing expires and nothing is removed: no default time
  to live, a loader (if any) that sets none, no item with an expiration, \<open>|T1| + |B1| \<le> N\<close>, and empty ghost lists
  as long as the cache is not full.
\<close>

definition loader_without_ttl :: "('k, 'v, 'x) baseCache_scheme \<Rightarrow> bool" where
  "loader_without_ttl c =
     (case loaderExpireFunc c of None \<Rightarrow> True | Some f \<Rightarrow> (\<forall>key. fst (snd (f key)) = None))"

definition arc_inv_noexp :: "('k, 'v) arcCache \<Rightarrow> bool" where
  "arc_inv_noexp c =
     (arc_inv c \<and>
      expiration c = None \<and>
      loader_without_ttl c \<and>
      list_all (\<lambda>(k, item). item_expiration item = None) (arc_items c) \<and>
      al_Len (t1 c) + al_Len (b1 c) \<le> csize c \<and>
      (isCacheFull c \<or> (b1 c = [] \<and> b2 c = [])))"

text \<open>The operations of such a run.\<close>

fun op_noexp :: "time \<times> ('k, 'v) op \<Rightarrow> bool" where
  "op_noexp (now, OpSetWithExpire key v d) = False"
| "op_noexp (now, OpRemove key) = False"
| "op_noexp (now, x) = True"

text \<open>
  The runs of a Simple cache in which no entry ever carries an expiration: no
  \<open>SetWithExpire\<close>, on a cache without default expiration and without a loader that sets
  one.
\<close>

fun op_nottl :: "time \<times> ('k, 'v) op \<Rightarrow> bool" where
  "op_nottl (now, OpSetWithExpire key v d) = False"
| "op_nottl (now, x) = True"


section \<open>Auxiliary notions for the proofs\<close>

text \<open>What \<open>lfu_inv\<close> depends on in the item map: the keys and the bucket of each item.\<close>

definition lfu_proj :: "('k \<times> 'v lfuItem) list \<Rightarrow> ('k \<times> nat) list" where
  "lfu_proj al = map (\<lambda>(k, item). (k, freqElement item)) al"

text \<open>
  The state in the middle of \<open>arcCache.set\<close>: the map already holds the key, the lists
  may not hold it yet.
\<close>

definition arc_pre :: "'k \<Rightarrow> ('k, 'v) arcCache \<Rightarrow> bool" where
  "arc_pre key c =
     (0 < csize c \<and>
      distinct (t1 c @ t2 c @ b1 c @ b2 c) \<and>
      distinct (map fst (arc_items c)) \<and>
      set (map fst (arc_items c)) = insert key (set (t1 c @ t2 c)) \<and>
      al_Len (t1 c) + al_Len (t2 c) \<le> csize c \<and>
      al_Len (t1 c) + al_Len (t2 c) + al_Len (b1 c) + al_Len (b2 c) \<le> 2 * csize c \<and>
      0 \<le> part c \<and> part c \<le> csize c)"

definition arc_extra :: "('k, 'v) arcCache \<Rightarrow> bool" where
  "arc_extra c =
     (al_Len (t1 c) + al_Len (b1 c) \<le> csize c \<and> (isCacheFull c \<or> (b1 c = [] \<and> b2 c = [])))"

text \<open>Two states with the same settings, and with the same counters.\<close>

definition same_config :: "('k, 'v, 'x) baseCache_scheme \<Rightarrow> ('k, 'v, 'y) baseCache_scheme \<Rightarrow> bool" where
  "same_config c c' =
     (csize c' = csize c \<and> expiration c' = expiration c \<and>
      loaderExpireFunc c' = loaderExpireFunc c \<and> evictedFunc c' = evictedFunc c \<and>
      purgeVisitorFunc c' = purgeVisitorFunc c \<and> addedFunc c' = addedFunc c \<and>
      deserializeFunc c' = deserializeFunc c \<and> serializeFunc c' = serializeFunc c)"

definition same_stats :: "('k, 'v, 'x) baseCache_scheme \<Rightarrow> ('k, 'v, 'y) baseCache_scheme \<Rightarrow> bool" where
  "same_stats c c' = (hitCount c' = hitCount c \<and> missCount c' = missCount c)"

definition lfu_bounded :: "int \<Rightarrow> ('k, 'v) lfuCache \<Rightarrow> bool" where
  "lfu_bounded n c = (lfu_inv c \<and> 0 < n \<and> csize c = n \<and> int (length (lfu_items c)) \<le> n)"

definition arc_sized :: "int \<Rightarrow> ('k, 'v) arcCache \<Rightarrow> bool" where
  "arc_sized n c = (arc_inv c \<and> csize c = n)"

definition arc_sized_noexp :: "int \<Rightarrow> ('k, 'v) arcCache \<Rightarrow> bool" where
  "arc_sized_noexp n c = (arc_inv_noexp c \<and> csize c = n)"

text \<open>
  What one user read does to the counters: a hit adds one to the hit counter, a miss one to
  the miss counter, and the other counter stays.
\<close>

definition counted ::
  "bool \<Rightarrow> ('k, 'v, 'x) baseCache_scheme \<Rightarrow> ('k, 'v, 'y) baseCache_scheme \<Rightarrow> bool" where
  "counted hit c c' =
     (hitCount c' = hitCount c + (if hit then 1 else 0) \<and>
      missCount c' = missCount c + (if hit then 0 else 1))"

definition lru_bounded :: "int \<Rightarrow> ('k, 'v) LRUCache \<Rightarrow> bool" where
  "lru_bounded n c = (0 < n \<and> csize c = n \<and> int (length (evictList c)) \<le> n)"

definition simple_nottl :: "int \<Rightarrow> ('k, 'v) SimpleCache \<Rightarrow> bool" where
  "simple_nottl n c =
     (0 < n \<and> csize c = n \<and> expiration c = None \<and> loader_without_ttl c \<and>
      list_all (\<lambda>(k, item). item_expiration item = None) (items c) \<and>
      int (length (items c)) \<le> n)"

section \<open>Scenarios\<close>

text \<open>The scenario S3 of the specification: an ARC cache of capacity 2.\<close>

definition S3_cache :: "(string, nat) arcCache" where
  "S3_cache = newARC (New 2)"

definition S3_three :: "(string, nat) arcCache option" where
  "S3_three = run arc_cache [(0, OpSet ''A'' 1), (0, OpSet ''B'' 2), (0, OpSet ''C'' 3)] S3_cache"

definition S3_four :: "(string, nat) arcCache option" where
  "S3_four = Option.bind S3_three (apply_op arc_cache (0, OpSet ''A'' 9))"

definition S3_get :: "((nat option \<times> error option) \<times> (string, nat) arcCache) option" where
  "S3_get = Option.bind S3_four (Get arc_cache ''A'' 0)"

text \<open>
  A cache whose deserialize hook fails on every value, holding one entry: as a Simple
  cache and as an LFU cache.
\<close>

definition C4_deserialize :: "string \<Rightarrow> nat \<Rightarrow> nat option \<times> error option" where
  "C4_deserialize key v = (None, Some (OtherError ''boom''))"

definition C4_simple :: "(string, nat) SimpleCache option" where
  "C4_simple =
     run simple_cache [(0, OpSet ''k'' 1)]
       (newSimpleCache ((New 10)\<lparr>b_deserializeFunc := Some C4_deserialize\<rparr>))"

definition C4_lfu :: "(string, nat) lfuCache option" where
  "C4_lfu =
     run lfu_cache [(0, OpSet ''k'' 1)]
       (newLFUCache ((New 10)\<lparr>b_deserializeFunc := Some C4_deserialize\<rparr>))"

text \<open>
  A Simple cache of capacity 1 that receives an entry with a time to live of 10 and then,
  at the same instant, a second key; the runs and states used to instantiate C1.
\<close>

definition C1_simple_run :: "(string, nat) SimpleCache option" where
  "C1_simple_run =
     run simple_cache [(0, OpSetWithExpire ''A'' 1 10), (0, OpSet ''B'' 2)] (newSimpleCache (New 1))"

definition C1_ops :: "(time \<times> (string, nat) op) list" where
  "C1_ops = [(0, OpSet ''A'' 1), (0, OpSet ''B'' 2), (1, OpGet ''A''), (2, OpSet ''C'' 3)]"

definition C1_simple_full :: "(string, nat) SimpleCache" where
  "C1_simple_full =
     (newSimpleCache (New 1))\<lparr>items := [(''A'', \<lparr>item_value = 1, item_expiration = None\<rparr>)]\<rparr>"

text \<open>An ARC cache of capacity 1: insert \<open>A\<close>, remove it, insert \<open>B\<close>.\<close>

definition C2_run :: "(string, nat) arcCache option" where
  "C2_run =
     run arc_cache [(0, OpSet ''A'' 1), (0, OpRemove ''A''), (0, OpSet ''B'' 2)] (newARC (New 1))"

definition C2_ops :: "(time \<times> (string, nat) op) list" where
  "C2_ops = [(0, OpSet ''A'' 1), (0, OpSet ''B'' 2), (1, OpGet ''A''), (2, OpSet ''C'' 3)]"

text \<open>An LFU run with one hit.\<close>

definition C10_ops :: "(time \<times> (string, nat) op) list" where
  "C10_ops = [(0, OpSet ''a'' 1), (0, OpGet ''a'')]"

text \<open>States and a run that hold the key \<open>A\<close> (or \<open>B\<close>), to instantiate C9; a Simple cache to purge.\<close>

definition C9_simple :: "(string, nat) SimpleCache" where
  "C9_simple =
     (newSimpleCache (New 2))\<lparr>items := [(''A'', \<lparr>item_value = 1, item_expiration = None\<rparr>)]\<rparr>"

definition C9_lfu :: "(string, nat) lfuCache" where
  "C9_lfu =
     (newLFUCache (New 2))
       \<lparr>lfu_items := [(''A'', \<lparr>item_value = 1, item_expiration = None, freqElement = 0\<rparr>)],
        freqList := [\<lparr>freq = 0, fe_items = [''A'']\<rparr>]\<rparr>"

definition C9_ops :: "(time \<times> (string, nat) op) list" where
  "C9_ops = [(0, OpSet ''A'' 1), (0, OpSet ''B'' 2), (1, OpGet ''B'')]"

definition C7_simple :: "(string, nat) SimpleCache" where
  "C7_simple =
     (newSimpleCache ((New 0)\<lparr>b_purgeVisitorFunc := True\<rparr>))
       \<lparr>items := [(''A'', \<lparr>item_value = 1, item_expiration = None\<rparr>),
                  (''B'', \<lparr>item_value = 2, item_expiration = Some 5\<rparr>)],
        hitCount := 3, missCount := 4\<rparr>"

text \<open>States and runs for the expiration boundary (C5).\<close>

definition C5_run :: "(string, nat) SimpleCache option" where
  "C5_run = run simple_cache [(0, OpSetWithExpire ''k'' 1 10)] (newSimpleCache (New 2))"

definition C5_simple :: "(string, nat) SimpleCache" where
  "C5_simple =
     (newSimpleCache ((New 2)\<lparr>b_evictedFunc := True\<rparr>))
       \<lparr>items := [(''k'', \<lparr>item_value = 1, item_expiration = Some 10\<rparr>)]\<rparr>"

definition C5_lfu :: "(string, nat) lfuCache" where
  "C5_lfu =
     (newLFUCache ((New 2)\<lparr>b_evictedFunc := True\<rparr>))
       \<lparr>lfu_items := [(''k'', \<lparr>item_value = 1, item_expiration = Some 10, freqElement = 0\<rparr>)],
        freqList := [\<lparr>freq = 0, fe_items = [''k'']\<rparr>]\<rparr>"

definition C5_cb :: "(string, nat) CacheBuilder" where
  "C5_cb = (New 2)\<lparr>b_evictedFunc := True\<rparr>"

definition C5_ops :: "(time \<times> (string, nat) op) list" where
  "C5_ops = [(0, OpSetWithExpire ''k'' 1 10)]"

text \<open>
  Caches for the counters (C6): one with a loader that returns 7 for every key, one whose
  deserialize hook returns \<open>KeyNotFoundError\<close>, and one with neither.
\<close>

definition C6_loader :: "string \<Rightarrow> nat \<times> time option \<times> error option" where
  "C6_loader key = (7, None, None)"

definition C6_loading :: "(string, nat) SimpleCache" where
  "C6_loading = newSimpleCache ((New 2)\<lparr>b_loaderExpireFunc := Some C6_loader\<rparr>)"

definition C6_deserialize :: "string \<Rightarrow> nat \<Rightarrow> nat option \<times> error option" where
  "C6_deserialize key v = (None, Some ErrKeyNotFound)"

definition C6_hooked :: "(string, nat) SimpleCache option" where
  "C6_hooked =
     run simple_cache [(0, OpSet ''x'' 1)]
       (newSimpleCache ((New 2)\<lparr>b_deserializeFunc := Some C6_deserialize\<rparr>))"

definition C6_simple :: "(string, nat) SimpleCache" where
  "C6_simple =
     (newSimpleCache (New 2))\<lparr>items := [(''x'', \<lparr>item_value = 1, item_expiration = None\<rparr>)]\<rparr>"

definition C6_ops :: "(time \<times> (string, nat) op) list" where
  "C6_ops = [(0, OpSet ''x'' 1)]"

text \<open>States of an LRU cache for C9, C7 and C6.\<close>

definition C9_lru :: "(string, nat) LRUCache" where
  "C9_lru =
     (newLRUCache (New 2))\<lparr>evictList := [(''A'', \<lparr>item_value = 1, item_expiration = None\<rparr>)]\<rparr>"

definition C7_lru :: "(string, nat) LRUCache" where
  "C7_lru =
     (newLRUCache ((New 2)\<lparr>b_purgeVisitorFunc := True\<rparr>))
       \<lparr>evictList := [(''B'', \<lparr>item_value = 2, item_expiration = Some 5\<rparr>),
                      (''A'', \<lparr>item_value = 1, item_expiration = None\<rparr>)],
        hitCount := 3, missCount := 4\<rparr>"

definition C6_lru :: "(string, nat) LRUCache" where
  "C6_lru =
     (newLRUCache (New 2))\<lparr>evictList := [(''x'', \<lparr>item_value = 1, item_expiration = None\<rparr>)]\<rparr>"

section \<open>Proofs\<close>

lemma lfu_inv_iff:
  "lfu_inv c \<longleftrightarrow>
     freqList c \<noteq> [] \<and>
     (\<forall>i < length (freqList c). freq (freqList c ! i) = of_nat i) \<and>
     distinct (map fst (lfu_items c)) \<and>
     (\<forall>i < length (freqList c). distinct (fe_items (freqList c ! i))) \<and>
     (\<forall>k item. (k, item) \<in> set (lfu_items c) \<longrightarrow>
        freqElement item < length (freqList c) \<and>
        k \<in> set (fe_items (freqList c ! freqElement item))) \<and>
     (\<forall>i < length (freqList c). \<forall>k \<in> set (fe_items (freqList c ! i)).
        \<exists>item. (k, item) \<in> set (lfu_items c) \<and> freqElement item = i)"
proof -
  have a: "map freq (freqList c) = map of_nat [0..<length (freqList c)] \<longleftrightarrow>
           (\<forall>i < length (freqList c). freq (freqList c ! i) = of_nat i)"
    by (subst list_eq_iff_nth_eq) simp
  have b: "list_all (\<lambda>fe. distinct (fe_items fe)) (freqList c) \<longleftrightarrow>
           (\<forall>i < length (freqList c). distinct (fe_items (freqList c ! i)))"
    by (simp add: list_all_length)
  have c: "list_all (\<lambda>(k, item). freqElement item < length (freqList c) \<and>
                  k \<in> set (fe_items (freqList c ! freqElement item))) (lfu_items c) \<longleftrightarrow>
        (\<forall>k item. (k, item) \<in> set (lfu_items c) \<longrightarrow>
        freqElement item < length (freqList c) \<and>
        k \<in> set (fe_items (freqList c ! freqElement item)))"
    by (auto simp: list_all_iff)
  have d: "list_all (\<lambda>i. list_all (\<lambda>k. case map_of (lfu_items c) k of
                                       None \<Rightarrow> False
                                     | Some item \<Rightarrow> freqElement item = i)
                           (fe_items (freqList c ! i)))
        [0..<length (freqList c)] \<longleftrightarrow>
     (\<forall>i < length (freqList c). \<forall>k \<in> set (fe_items (freqList c ! i)).
        \<exists>item. (k, item) \<in> set (lfu_items c) \<and> freqElement item = i)"
    if dist: "distinct (map fst (lfu_items c))"
  proof -
    have "(case map_of (lfu_items c) k of None \<Rightarrow> False | Some item \<Rightarrow> freqElement item = i)
          \<longleftrightarrow> (\<exists>item. (k, item) \<in> set (lfu_items c) \<and> freqElement item = i)" for k i
    proof (cases "map_of (lfu_items c) k")
      case None
      then have "\<And>item. (k, item) \<notin> set (lfu_items c)"
        by (metis map_of_SomeD option.distinct(1) weak_map_of_SomeI)
      with None show ?thesis by simp
    next
      case (Some it)
      then have "(k, it) \<in> set (lfu_items c)" by (rule map_of_SomeD)
      moreover have "it' = it" if "(k, it') \<in> set (lfu_items c)" for it'
        using dist that Some by simp
      ultimately show ?thesis unfolding Some option.case by blast
    qed
    then show ?thesis by (simp add: list_all_iff Ball_def)
  qed
  show ?thesis
  proof (cases "distinct (map fst (lfu_items c))")
    case True
    show ?thesis unfolding lfu_inv_def a b c d[OF True] by (rule refl)
  next
    case False
    then show ?thesis by (simp add: lfu_inv_def)
  qed
qed

lemma call_evicted_upd:
  "call_evicted key v c = c\<lparr>events := events c @ (if evictedFunc c then [Evicted key v] else [])\<rparr>"
  by (simp add: call_evicted_def)

lemma call_added_upd:
  "call_added key v c = c\<lparr>events := events c @ (if addedFunc c then [Added key v] else [])\<rparr>"
  by (simp add: call_added_def)

lemma call_purgeVisitor_upd:
  "call_purgeVisitor kvs c =
     c\<lparr>events := events c @ (if purgeVisitorFunc c then map (\<lambda>(k, v). PurgeVisited k v) kvs else [])\<rparr>"
  by (simp add: call_purgeVisitor_def)

lemmas call_upd = call_evicted_upd call_added_upd call_purgeVisitor_upd IncrHitCount_def IncrMissCount_def

lemma length_delete_distinct:
  "distinct (map fst al) \<Longrightarrow> k \<in> fst ` set al \<Longrightarrow> Suc (length (AList.delete k al)) = length al"
  by (induction al) (auto simp: image_iff)

lemma set_delete: "set (AList.delete k al) = {p \<in> set al. fst p \<noteq> k}"
  by (auto simp: AList.delete_eq)

lemma lfu_inv_init: "lfu_inv (lfu_init c)"
  by (simp add: lfu_inv_def lfu_init_def)

lemma lfu_removeItem_fields:
  "lfu_items (lfu_removeItem k item c) = AList.delete k (lfu_items c)"
  "length (freqList (lfu_removeItem k item c)) = length (freqList c)"
  "csize (lfu_removeItem k item c) = csize c"
  "hitCount (lfu_removeItem k item c) = hitCount c"
  "missCount (lfu_removeItem k item c) = missCount c"
  by (simp_all add: lfu_removeItem_def call_upd Let_def)

lemma lfu_inv_removeItem:
  assumes inv: "lfu_inv c" and mem: "(k, item) \<in> set (lfu_items c)"
  shows "lfu_inv (lfu_removeItem k item c)"
proof -
  let ?fl = "freqList c" and ?idx = "freqElement item"
  from inv have dist: "distinct (map fst (lfu_items c))"
    and fwd: "\<And>k item. (k, item) \<in> set (lfu_items c) \<Longrightarrow>
        freqElement item < length ?fl \<and> k \<in> set (fe_items (?fl ! freqElement item))"
    and bwd: "\<And>i k. i < length ?fl \<Longrightarrow> k \<in> set (fe_items (?fl ! i)) \<Longrightarrow>
        \<exists>item. (k, item) \<in> set (lfu_items c) \<and> freqElement item = i"
    and dis: "\<And>i. i < length ?fl \<Longrightarrow> distinct (fe_items (?fl ! i))"
    and fr: "\<And>i. i < length ?fl \<Longrightarrow> freq (?fl ! i) = of_nat i"
    and ne: "?fl \<noteq> []"
    unfolding lfu_inv_iff by blast+
  from fwd[OF mem] have idx: "?idx < length ?fl" by simp
  have uniq: "item' = item" if "(k, item') \<in> set (lfu_items c)" for item'
    using dist mem that by (meson eq_key_imp_eq_value)
  define fl' where "fl' = ?fl[?idx := (?fl ! ?idx)\<lparr>fe_items := removeAll k (fe_items (?fl ! ?idx))\<rparr>]"
  have fl: "freqList (lfu_removeItem k item c) = fl'"
    using idx by (simp add: lfu_removeItem_def call_upd Let_def fl'_def)
  have its: "lfu_items (lfu_removeItem k item c) = AList.delete k (lfu_items c)"
    by (rule lfu_removeItem_fields)
  have len: "length fl' = length ?fl" by (simp add: fl'_def)
  have bucket: "set (fe_items (fl' ! i)) = (if i = ?idx then set (fe_items (?fl ! i)) - {k} else set (fe_items (?fl ! i)))"
    if "i < length ?fl" for i
    using that idx by (cases "i = ?idx") (auto simp: fl'_def)
  show ?thesis
    unfolding lfu_inv_iff fl its len
  proof (intro conjI allI impI ballI)
    show "fl' \<noteq> []" using ne len by auto
    show "freq (fl' ! i) = of_nat i" if "i < length ?fl" for i
      using that fr[OF that] idx by (cases "i = ?idx") (simp_all add: fl'_def)
    show "distinct (map fst (AList.delete k (lfu_items c)))"
      using dist by (rule distinct_delete)
    show "distinct (fe_items (fl' ! i))" if "i < length ?fl" for i
      using that dis[OF that] idx by (cases "i = ?idx") (simp_all add: fl'_def distinct_removeAll)
  next
    fix k' item' assume "(k', item') \<in> set (AList.delete k (lfu_items c))"
    then have m: "(k', item') \<in> set (lfu_items c)" and nk: "k' \<noteq> k" by (auto simp: set_delete)
    from fwd[OF m] show "freqElement item' < length ?fl" by simp
    from fwd[OF m] nk show "k' \<in> set (fe_items (fl' ! freqElement item'))"
      by (auto simp: bucket)
  next
    fix i k' assume i: "i < length ?fl" and k': "k' \<in> set (fe_items (fl' ! i))"
    then have old: "k' \<in> set (fe_items (?fl ! i))" by (auto simp: bucket split: if_splits)
    from bwd[OF i old] obtain item' where m: "(k', item') \<in> set (lfu_items c)" and f: "freqElement item' = i"
      by blast
    have "k' \<noteq> k"
    proof
      assume "k' = k"
      with m uniq have "item' = item" by simp
      with f have "i = ?idx" by simp
      with k' i \<open>k' = k\<close> show False by (simp add: bucket)
    qed
    with m f show "\<exists>item. (k', item) \<in> set (AList.delete k (lfu_items c)) \<and> freqElement item = i"
      by (auto simp: set_delete)
  qed
qed

lemma map_fst_update_mem:
  "k \<in> fst ` set al \<Longrightarrow> map fst (AList.update k v al) = map fst al"
  by (simp add: update_keys)

lemma set_update_distinct:
  "distinct (map fst al) \<Longrightarrow> (k, v0) \<in> set al \<Longrightarrow>
     set (AList.update k v al) = insert (k, v) (set al - {(k, v0)})"
proof (induction al)
  case Nil
  then show ?case by simp
next
  case (Cons p al)
  obtain k' v' where p: "p = (k', v')" by (cases p)
  show ?case
  proof (cases "k' = k")
    case True
    with Cons.prems p have "v' = v0" by (auto simp: image_iff)
    moreover from Cons.prems p True have "(k, v0) \<notin> set al" by (auto simp: image_iff)
    ultimately show ?thesis using p True by auto
  next
    case False
    with Cons p show ?thesis by auto
  qed
qed

lemma lfu_increment_inv:
  assumes inv: "lfu_inv c" and mem: "(k, item) \<in> set (lfu_items c)"
  shows "\<exists>c'. lfu_increment k item c = Some c' \<and> lfu_inv c' \<and>
           lfu_items c' = AList.update k (item\<lparr>freqElement := Suc (freqElement item)\<rparr>) (lfu_items c) \<and>
           Suc (freqElement item) < length (freqList c') \<and>
           length (freqList c) \<le> length (freqList c') \<and>
           csize c' = csize c \<and> hitCount c' = hitCount c \<and> missCount c' = missCount c \<and>
           events c' = events c \<and> expiration c' = expiration c"
proof -
  let ?fl = "freqList c" and ?idx = "freqElement item"
  let ?item' = "item\<lparr>freqElement := Suc ?idx\<rparr>"
  from inv have dist: "distinct (map fst (lfu_items c))"
    and fwd: "\<And>k item. (k, item) \<in> set (lfu_items c) \<Longrightarrow>
        freqElement item < length ?fl \<and> k \<in> set (fe_items (?fl ! freqElement item))"
    and bwd: "\<And>i k. i < length ?fl \<Longrightarrow> k \<in> set (fe_items (?fl ! i)) \<Longrightarrow>
        \<exists>item. (k, item) \<in> set (lfu_items c) \<and> freqElement item = i"
    and dis: "\<And>i. i < length ?fl \<Longrightarrow> distinct (fe_items (?fl ! i))"
    and fr: "\<And>i. i < length ?fl \<Longrightarrow> freq (?fl ! i) = of_nat i"
    and ne: "?fl \<noteq> []"
    unfolding lfu_inv_iff by blast+
  from fwd[OF mem] have idx: "?idx < length ?fl" by simp
  have uniq: "item' = item" if "(k, item') \<in> set (lfu_items c)" for item'
    using dist mem that by (meson eq_key_imp_eq_value)
  define fl1 where "fl1 = ?fl[?idx := (?fl ! ?idx)\<lparr>fe_items := removeAll k (fe_items (?fl ! ?idx))\<rparr>]"
  define fl2 where "fl2 = (if Suc ?idx < length fl1 then fl1
                      else fl1 @ [\<lparr>freq = freq (?fl ! ?idx) + 1, fe_items = []\<rparr>])"
  define fl3 where "fl3 = fl2[Suc ?idx :=
                       (fl2 ! Suc ?idx)\<lparr>fe_items := List.insert k (fe_items (fl2 ! Suc ?idx))\<rparr>]"
  define c' where "c' = c\<lparr>freqList := fl3, lfu_items := AList.update k ?item' (lfu_items c)\<rparr>"
  have res: "lfu_increment k item c = Some c'"
    using idx by (simp add: lfu_increment_def Let_def c'_def fl3_def fl2_def fl1_def)
  have len1: "length fl1 = length ?fl" by (simp add: fl1_def)
  have len2: "length fl2 = (if Suc ?idx < length ?fl then length ?fl else Suc (length ?fl))"
    by (simp add: fl2_def len1)
  have len3: "length fl3 = length fl2" by (simp add: fl3_def)
  have sidx: "Suc ?idx < length fl2" using idx by (simp add: len2)
  have last: "Suc ?idx = length ?fl" if "\<not> Suc ?idx < length ?fl" using that idx by simp
  have n1: "fl1 ! i = (if i = ?idx then (?fl ! ?idx)\<lparr>fe_items := removeAll k (fe_items (?fl ! ?idx))\<rparr> else ?fl ! i)"
    if "i < length ?fl" for i
    using that idx by (simp add: fl1_def nth_list_update)
  have n2: "fl2 ! i = (if i < length ?fl then fl1 ! i else \<lparr>freq = freq (?fl ! ?idx) + 1, fe_items = []\<rparr>)"
    if "i < length fl2" for i
    using that by (auto simp: fl2_def len1 nth_append split: if_splits)
  have n3: "fl3 ! i = (if i = Suc ?idx then (fl2 ! i)\<lparr>fe_items := List.insert k (fe_items (fl2 ! i))\<rparr> else fl2 ! i)"
    if "i < length fl2" for i
    using that sidx by (simp add: fl3_def nth_list_update)
  have f3: "freq (fl3 ! i) = of_nat i" if "i < length fl2" for i
  proof (cases "i < length ?fl")
    case True
    then show ?thesis using that fr[OF True] by (auto simp: n3 n2 n1)
  next
    case False
    with that have "i = length ?fl" and "\<not> Suc ?idx < length ?fl" by (auto simp: len2 split: if_splits)
    with last have "i = Suc ?idx" by simp
    then show ?thesis using that False fr[OF idx] by (simp add: n3 n2)
  qed
  have old: "fe_items (fl2 ! i) = (if i < length ?fl then (if i = ?idx then removeAll k (fe_items (?fl ! i)) else fe_items (?fl ! i)) else [])"
    if "i < length fl2" for i
    using that by (simp add: n2 n1)
  have b3: "set (fe_items (fl3 ! i)) =
          (if i = Suc ?idx then insert k (if i < length ?fl then set (fe_items (?fl ! i)) else {})
           else if i = ?idx then set (fe_items (?fl ! i)) - {k}
           else set (fe_items (?fl ! i)))" if "i < length fl2" for i
  proof -
    have "i < length ?fl" if "i \<noteq> Suc ?idx"
      using that \<open>i < length fl2\<close> idx by (auto simp: len2 split: if_splits)
    then show ?thesis using that by (auto simp: n3 old)
  qed
  have d3: "distinct (fe_items (fl3 ! i))" if "i < length fl2" for i
  proof (cases "i < length ?fl")
    case True
    then show ?thesis using that dis[OF True] by (auto simp: n3 old distinct_removeAll)
  next
    case False
    then show ?thesis using that by (simp add: n3 old)
  qed
  have kmem: "k \<in> fst ` set (lfu_items c)" using mem by (force simp: image_iff)
  have its: "set (AList.update k ?item' (lfu_items c)) = insert (k, ?item') (set (lfu_items c) - {(k, item)})"
    using dist mem by (rule set_update_distinct)
  have inv': "lfu_inv c'"
    unfolding lfu_inv_iff
  proof (intro conjI allI impI ballI)
    show "freqList c' \<noteq> []" using sidx by (auto simp: c'_def fl3_def)
    show "freq (freqList c' ! i) = of_nat i" if "i < length (freqList c')" for i
      using that f3[of i] by (simp add: c'_def len3)
    show "distinct (map fst (lfu_items c'))"
      using dist kmem by (simp add: c'_def map_fst_update_mem)
    show "distinct (fe_items (freqList c' ! i))" if "i < length (freqList c')" for i
      using that d3[of i] by (simp add: c'_def len3)
  next
    fix k' item' assume "(k', item') \<in> set (lfu_items c')"
    then consider "k' = k" "item' = ?item'" | "(k', item') \<in> set (lfu_items c)" "(k', item') \<noteq> (k, item)"
      by (auto simp: c'_def its)
    then have both: "freqElement item' < length (freqList c') \<and> k' \<in> set (fe_items (freqList c' ! freqElement item'))"
    proof cases
      case 1
      then show ?thesis using sidx by (auto simp: c'_def len3 b3)
    next
      case 2
      from fwd[OF 2(1)] have a: "freqElement item' < length ?fl" and b: "k' \<in> set (fe_items (?fl ! freqElement item'))"
        by simp_all
      have "k' \<noteq> k" using 2 uniq by auto
      moreover have "freqElement item' < length fl2" using a by (simp add: len2)
      ultimately show ?thesis using a b by (auto simp: c'_def len3 b3)
    qed
    from both show "freqElement item' < length (freqList c')" by simp
    from both show "k' \<in> set (fe_items (freqList c' ! freqElement item'))" by simp
  next
    fix i k' assume i: "i < length (freqList c')" and k': "k' \<in> set (fe_items (freqList c' ! i))"
    then have i2: "i < length fl2" by (simp add: c'_def len3)
    from k' have k3: "k' \<in> set (fe_items (fl3 ! i))" by (simp add: c'_def)
    show "\<exists>item. (k', item) \<in> set (lfu_items c') \<and> freqElement item = i"
    proof (cases "k' = k")
      case True
      have "i = Suc ?idx"
      proof (rule ccontr)
        assume ne: "i \<noteq> Suc ?idx"
        then have il: "i < length ?fl" using i2 idx by (auto simp: len2 split: if_splits)
        from k3 ne True have "k \<in> set (fe_items (?fl ! i))" "i \<noteq> ?idx"
          by (auto simp: b3[OF i2] split: if_splits)
        with bwd[OF il] uniq show False by auto
      qed
      then show ?thesis using True by (auto simp: c'_def its)
    next
      case False
      have il: "i < length ?fl"
      proof (rule ccontr)
        assume nl: "\<not> i < length ?fl"
        then have "i = Suc ?idx" using i2 idx by (auto simp: len2 split: if_splits)
        with k3 nl b3[OF i2] have "k' = k" by auto
        with False show False by simp
      qed
      moreover from k3 False have "k' \<in> set (fe_items (?fl ! i))"
        by (auto simp: b3[OF i2] il split: if_splits)
      ultimately obtain it where "(k', it) \<in> set (lfu_items c)" "freqElement it = i"
        using bwd by blast
      with False show ?thesis by (auto simp: c'_def its)
    qed
  qed
  have "length ?fl \<le> length (freqList c')" by (simp add: c'_def len3 len2)
  moreover have "Suc ?idx < length (freqList c')" using sidx by (simp add: c'_def len3)
  ultimately show ?thesis using res inv' by (simp add: c'_def)
qed

lemma evict_items_done: "count \<le> i \<Longrightarrow> evict_items ks i count c = (i, c)"
  by (cases ks) simp_all

lemma evict_entries_done: "count \<le> i \<Longrightarrow> evict_entries es i count c = c"
  by (cases es) simp_all

lemma lfu_inv_mem_bucket:
  "lfu_inv c \<Longrightarrow> i < length (freqList c) \<Longrightarrow> k \<in> set (fe_items (freqList c ! i)) \<Longrightarrow>
     \<exists>item. (k, item) \<in> set (lfu_items c) \<and> map_of (lfu_items c) k = Some item \<and> freqElement item = i"
  unfolding lfu_inv_iff by (metis map_of_eq_Some_iff)

lemma evict_entries_one:
  assumes "lfu_inv c" and "set es \<subseteq> {..<length (freqList c)}"
  shows "(evict_entries es 0 1 c = c \<and> (\<forall>e \<in> set es. fe_items (freqList c ! e) = [])) \<or>
         (\<exists>k item. (k, item) \<in> set (lfu_items c) \<and> evict_entries es 0 1 c = lfu_removeItem k item c)"
  using assms
proof (induction es)
  case Nil
  then show ?case by simp
next
  case (Cons e es)
  show ?case
  proof (cases "fe_items (freqList c ! e)")
    case Nil
    with Cons show ?thesis by simp
  next
    case (Cons k ks)
    from Cons.prems have "e < length (freqList c)" by simp
    moreover have "k \<in> set (fe_items (freqList c ! e))" using Cons by simp
    ultimately obtain item where it: "(k, item) \<in> set (lfu_items c)" "map_of (lfu_items c) k = Some item"
      using lfu_inv_mem_bucket[OF Cons.prems(1)] by blast
    have "evict_entries (e # es) 0 1 c = lfu_removeItem k item c"
      using Cons it by (simp add: evict_items_done evict_entries_done)
    with it show ?thesis by blast
  qed
qed

lemma lfu_evict_one:
  assumes inv: "lfu_inv c"
  shows "(lfu_evict 1 c = c \<and> lfu_items c = []) \<or>
         (\<exists>k item. (k, item) \<in> set (lfu_items c) \<and> lfu_evict 1 c = lfu_removeItem k item c)"
proof -
  have "set [0..<length (freqList c)] \<subseteq> {..<length (freqList c)}" by auto
  from evict_entries_one[OF inv this]
  consider "lfu_evict 1 c = c" "\<forall>e < length (freqList c). fe_items (freqList c ! e) = []"
    | "\<exists>k item. (k, item) \<in> set (lfu_items c) \<and> lfu_evict 1 c = lfu_removeItem k item c"
    by (auto simp: lfu_evict_def)
  then show ?thesis
  proof cases
    case 1
    have "lfu_items c = []"
    proof (cases "lfu_items c")
      case (Cons p ps)
      obtain k item where "p = (k, item)" by (cases p)
      with Cons have "(k, item) \<in> set (lfu_items c)" by simp
      with inv have "freqElement item < length (freqList c)"
        "k \<in> set (fe_items (freqList c ! freqElement item))"
        unfolding lfu_inv_iff by blast+
      with 1(2) show ?thesis by auto
    qed simp
    with 1 show ?thesis by simp
  next
    case 2
    then show ?thesis by simp
  qed
qed

lemma lfu_evict_inv: "lfu_inv c \<Longrightarrow> lfu_inv (lfu_evict 1 c)"
  using lfu_evict_one[of c] lfu_inv_removeItem by fastforce

lemma lfu_evict_fields:
  assumes "lfu_inv c"
  shows "csize (lfu_evict 1 c) = csize c" "hitCount (lfu_evict 1 c) = hitCount c"
    "missCount (lfu_evict 1 c) = missCount c" "expiration (lfu_evict 1 c) = expiration c"
    "length (freqList (lfu_evict 1 c)) = length (freqList c)"
    "addedFunc (lfu_evict 1 c) = addedFunc c"
    "set (lfu_items (lfu_evict 1 c)) \<subseteq> set (lfu_items c)"
  using lfu_evict_one[OF assms]
  by (auto simp: lfu_removeItem_def call_upd Let_def set_delete)

lemma lfu_evict_length:
  assumes "lfu_inv c" and "lfu_items c \<noteq> []"
  shows "Suc (length (lfu_items (lfu_evict 1 c))) = length (lfu_items c)"
proof -
  from lfu_evict_one[OF assms(1)] assms(2)
  obtain k item where m: "(k, item) \<in> set (lfu_items c)" and e: "lfu_evict 1 c = lfu_removeItem k item c"
    by auto
  from assms(1) have "distinct (map fst (lfu_items c))" by (simp add: lfu_inv_def)
  moreover from m have "k \<in> fst ` set (lfu_items c)" by (force simp: image_iff)
  ultimately show ?thesis by (simp add: e lfu_removeItem_fields length_delete_distinct)
qed



lemma lfu_inv_proj:
  assumes "freqList c' = freqList c" and "lfu_proj (lfu_items c') = lfu_proj (lfu_items c)"
  shows "lfu_inv c' = lfu_inv c"
proof -
  have keys: "map fst (lfu_items d) = map fst (lfu_proj (lfu_items d))" for d :: "('k, 'v) lfuCache"
    by (simp add: lfu_proj_def case_prod_unfold comp_def)
  have fwd: "list_all (\<lambda>(k, item). freqElement item < n \<and> k \<in> set (fe_items (fl ! freqElement item))) (lfu_items d)
          = list_all (\<lambda>(k, f). f < n \<and> k \<in> set (fe_items (fl ! f))) (lfu_proj (lfu_items d))"
    for d :: "('k, 'v) lfuCache" and n and fl :: "'k freqEntry list"
    by (simp add: lfu_proj_def list_all_iff case_prod_unfold)
  have mo: "map_of (lfu_proj al) k = map_option freqElement (map_of al k)" for al :: "('k \<times> 'v lfuItem) list" and k
    by (induction al) (auto simp: lfu_proj_def)
  have bwd: "(case map_of (lfu_items d) k of None \<Rightarrow> False | Some item \<Rightarrow> freqElement item = i)
           = (case map_of (lfu_proj (lfu_items d)) k of None \<Rightarrow> False | Some f \<Rightarrow> f = i)"
    for d :: "('k, 'v) lfuCache" and k i
    by (simp add: mo split: option.splits)
  show ?thesis
    unfolding lfu_inv_def keys fwd bwd assms ..
qed

lemma lfu_proj_update_same:
  "map_of al k = Some item \<Longrightarrow> freqElement item' = freqElement item \<Longrightarrow>
     lfu_proj (AList.update k item' al) = lfu_proj al"
  by (induction al) (auto simp: lfu_proj_def)

lemma lfu_proj_set_item_expiration:
  "lfu_proj (set_item_expiration k t al) = lfu_proj al"
  by (auto simp: set_item_expiration_def lfu_proj_update_same split: option.splits)

lemma length_update_mem: "map_of al k = Some v0 \<Longrightarrow> length (AList.update k v al) = length al"
  by (induction al) (auto split: if_splits)

lemma length_update_new: "map_of al k = None \<Longrightarrow> length (AList.update k v al) = Suc (length al)"
  by (induction al) (auto split: if_splits)

lemma length_set_item_expiration [simp]: "length (set_item_expiration k t al) = length al"
  by (auto simp: set_item_expiration_def length_update_mem split: option.splits)

lemma keys_set_item_expiration [simp]: "map fst (set_item_expiration k t al) = map fst al"
  by (auto simp: set_item_expiration_def update_keys map_of_eq_None_iff image_iff split: option.splits dest!: map_of_SomeD)

lemma update_new_append: "k \<notin> fst ` set al \<Longrightarrow> AList.update k v al = al @ [(k, v)]"
  by (induction al) auto

lemma lfu_inv_insert_new:
  assumes inv: "lfu_inv c" and new: "map_of (lfu_items c) k = None"
    and fl: "freqList c = fe # rest"
  shows "lfu_inv (c\<lparr>freqList := fe\<lparr>fe_items := List.insert k (fe_items fe)\<rparr> # rest,
                   lfu_items := AList.update k \<lparr>item_value = v, item_expiration = None, freqElement = 0\<rparr>
                                  (lfu_items c)\<rparr>)"
    (is "lfu_inv ?c'")
proof -
  let ?fl = "freqList c"
  let ?it = "\<lparr>item_value = v, item_expiration = None, freqElement = 0\<rparr>"
  from inv have dist: "distinct (map fst (lfu_items c))"
    and fwd: "\<And>k item. (k, item) \<in> set (lfu_items c) \<Longrightarrow>
        freqElement item < length ?fl \<and> k \<in> set (fe_items (?fl ! freqElement item))"
    and bwd: "\<And>i k. i < length ?fl \<Longrightarrow> k \<in> set (fe_items (?fl ! i)) \<Longrightarrow>
        \<exists>item. (k, item) \<in> set (lfu_items c) \<and> freqElement item = i"
    and dis: "\<And>i. i < length ?fl \<Longrightarrow> distinct (fe_items (?fl ! i))"
    and fr: "\<And>i. i < length ?fl \<Longrightarrow> freq (?fl ! i) = of_nat i"
    unfolding lfu_inv_iff by blast+
  have nk: "k \<notin> fst ` set (lfu_items c)" using new by (simp add: map_of_eq_None_iff)
  have its: "lfu_items ?c' = lfu_items c @ [(k, ?it)]"
    using nk by (simp add: update_new_append)
  have flc: "freqList ?c' = ?fl[0 := (?fl ! 0)\<lparr>fe_items := List.insert k (fe_items (?fl ! 0))\<rparr>]"
    by (simp add: fl)
  have len: "length (freqList ?c') = length ?fl" by (simp add: fl)
  have pos: "0 < length ?fl" by (simp add: fl)
  have b: "set (fe_items (freqList ?c' ! i)) =
            (if i = 0 then insert k (set (fe_items (?fl ! i))) else set (fe_items (?fl ! i)))"
    if "i < length ?fl" for i
    using that unfolding flc by (cases "i = 0") simp_all
  show ?thesis
    unfolding lfu_inv_iff len its
  proof (intro conjI allI impI ballI)
    show "freqList ?c' \<noteq> []" by simp
    show "freq (freqList ?c' ! i) = of_nat i" if "i < length ?fl" for i
      using that fr[OF that] unfolding flc by (cases "i = 0") simp_all
    show "distinct (map fst (lfu_items c @ [(k, ?it)]))" using dist nk by simp
    show "distinct (fe_items (freqList ?c' ! i))" if "i < length ?fl" for i
      using that dis[OF that] unfolding flc by (cases "i = 0") (simp_all add: distinct_insert)
  next
    fix k' item' assume "(k', item') \<in> set (lfu_items c @ [(k, ?it)])"
    then consider "k' = k" "item' = ?it" | "(k', item') \<in> set (lfu_items c)" by auto
    then have both: "freqElement item' < length ?fl \<and> k' \<in> set (fe_items (freqList ?c' ! freqElement item'))"
    proof cases
      case 1
      then show ?thesis using pos b[OF pos] by simp
    next
      case 2
      from fwd[OF 2] show ?thesis using b[of "freqElement item'"] by auto
    qed
    from both show "freqElement item' < length ?fl" by simp
    from both show "k' \<in> set (fe_items (freqList ?c' ! freqElement item'))" by simp
  next
    fix i k' assume i: "i < length ?fl" and k': "k' \<in> set (fe_items (freqList ?c' ! i))"
    show "\<exists>item. (k', item) \<in> set (lfu_items c @ [(k, ?it)]) \<and> freqElement item = i"
    proof (cases "k' = k \<and> i = 0")
      case True
      then show ?thesis by auto
    next
      case False
      with k' b[OF i] have "k' \<in> set (fe_items (?fl ! i))" by (auto split: if_splits)
      from bwd[OF i this] show ?thesis by auto
    qed
  qed
qed

lemma lfu_set_inv:
  fixes c :: "('k, 'v) lfuCache"
  assumes inv: "lfu_inv c"
  shows "\<exists>r. lfu_set k v now c = Some r \<and>
           (case r of Inl e \<Rightarrow> True
            | Inr c' \<Rightarrow> lfu_inv c' \<and> csize c' = csize c \<and> hitCount c' = hitCount c \<and>
                missCount c' = missCount c \<and> length (freqList c') = length (freqList c) \<and>
                k \<in> fst ` set (lfu_items c') \<and>
                (0 < csize c \<longrightarrow> int (length (lfu_items c)) \<le> csize c \<longrightarrow>
                   int (length (lfu_items c')) \<le> csize c))"
proof (cases "serialize c k v")
  case (Inl e)
  then show ?thesis by (simp add: lfu_set_def)
next
  case (Inr w)
  define fin where "fin = (\<lambda>c1 :: ('k, 'v) lfuCache. call_added k w
     (case expiration c1 of None \<Rightarrow> c1
      | Some d \<Rightarrow> c1\<lparr>lfu_items := set_item_expiration k (now + d) (lfu_items c1)\<rparr>))"
  have fin_inv: "lfu_inv (fin c1) = lfu_inv c1" for c1
    by (rule lfu_inv_proj) (auto simp: fin_def call_upd lfu_proj_set_item_expiration split: option.splits)
  have fin_fields: "csize (fin c1) = csize c1" "hitCount (fin c1) = hitCount c1"
    "missCount (fin c1) = missCount c1" "freqList (fin c1) = freqList c1"
    "length (lfu_items (fin c1)) = length (lfu_items c1)"
    "map fst (lfu_items (fin c1)) = map fst (lfu_items c1)" for c1
    by (auto simp: fin_def call_upd split: option.splits)
  have keys: "fst ` set (lfu_items (fin c1)) = fst ` set (lfu_items c1)" for c1
    using fin_fields(6)[of c1] by (metis list.set_map)
  show ?thesis
  proof (cases "map_of (lfu_items c) k")
    case (Some item)
    define c1 where "c1 = c\<lparr>lfu_items := AList.update k (item\<lparr>item_value := w\<rparr>) (lfu_items c)\<rparr>"
    have r: "lfu_set k v now c = Some (Inr (fin c1))"
      using Inr Some by (simp add: lfu_set_def fin_def c1_def Let_def)
    have "lfu_inv c1 = lfu_inv c"
      by (rule lfu_inv_proj) (simp_all add: c1_def lfu_proj_update_same[OF Some])
    moreover have "length (lfu_items c1) = length (lfu_items c)"
      by (simp add: c1_def length_update_mem[OF Some])
    moreover have "k \<in> fst ` set (lfu_items c1)"
      by (simp add: c1_def dom_update)
    ultimately show ?thesis using inv r
      by (simp add: fin_inv fin_fields keys) (simp add: c1_def)
  next
    case None
    define c0 where "c0 = (if int (length (lfu_items c)) \<ge> csize c then lfu_evict 1 c else c)"
    have inv0: "lfu_inv c0" using inv by (simp add: c0_def lfu_evict_inv)
    then obtain fe rest where fl0: "freqList c0 = fe # rest"
      by (cases "freqList c0") (auto simp: lfu_inv_def)
    have new0: "map_of (lfu_items c0) k = None"
      using None lfu_evict_fields(7)[OF inv]
      by (auto simp: c0_def map_of_eq_None_iff image_iff split: if_splits)
    define c1 where "c1 = c0\<lparr>freqList := fe\<lparr>fe_items := List.insert k (fe_items fe)\<rparr> # rest,
                   lfu_items := AList.update k \<lparr>item_value = w, item_expiration = None, freqElement = 0\<rparr>
                                  (lfu_items c0)\<rparr>"
    have r: "lfu_set k v now c = Some (Inr (fin c1))"
      using Inr None fl0 by (simp add: lfu_set_def fin_def c1_def c0_def Let_def)
    have inv1: "lfu_inv c1" unfolding c1_def by (rule lfu_inv_insert_new[OF inv0 new0 fl0])
    have f0: "csize c0 = csize c" "hitCount c0 = hitCount c" "missCount c0 = missCount c"
      "length (freqList c0) = length (freqList c)"
      using lfu_evict_fields[OF inv] by (auto simp: c0_def)
    have len1: "length (lfu_items c1) = Suc (length (lfu_items c0))"
      by (simp add: c1_def length_update_new[OF new0])
    have bound: "int (length (lfu_items c1)) \<le> csize c"
      if "0 < csize c" "int (length (lfu_items c)) \<le> csize c"
    proof (cases "int (length (lfu_items c)) \<ge> csize c")
      case True
      with that have "lfu_items c \<noteq> []" by auto
      from lfu_evict_length[OF inv this] True that show ?thesis by (simp add: len1 c0_def)
    next
      case False
      then show ?thesis by (simp add: len1 c0_def)
    qed
    have "k \<in> fst ` set (lfu_items c1)" by (simp add: c1_def dom_update)
    moreover have "length (freqList c1) = length (freqList c)" using f0 fl0 by (simp add: c1_def)
    moreover have "csize c1 = csize c" "hitCount c1 = hitCount c" "missCount c1 = missCount c"
      using f0 by (simp_all add: c1_def)
    ultimately show ?thesis using inv1 r bound
      by (simp add: fin_inv fin_fields keys)
  qed
qed

lemma lfu_getValue_inv:
  fixes c :: "('k, 'v) lfuCache"
  assumes inv: "lfu_inv c"
  shows "\<exists>r c'. lfu_getValue k onLoad now c = Some (r, c') \<and> lfu_inv c' \<and> csize c' = csize c \<and>
           length (lfu_items c') \<le> length (lfu_items c) \<and>
           length (freqList c) \<le> length (freqList c')"
proof (cases "map_of (lfu_items c) k")
  case None
  have "lfu_inv (IncrMissCount c) = lfu_inv c"
    by (rule lfu_inv_proj) (simp_all add: call_upd)
  with None inv show ?thesis by (auto simp: lfu_getValue_def call_upd)
next
  case (Some item)
  then have mem: "(k, item) \<in> set (lfu_items c)" by (rule map_of_SomeD)
  show ?thesis
  proof (cases "IsExpired item now")
    case True
    define c1 where "c1 = lfu_removeItem k item c"
    have i1: "lfu_inv c1" unfolding c1_def by (rule lfu_inv_removeItem[OF inv mem])
    have "lfu_inv (IncrMissCount c1) = lfu_inv c1"
      by (rule lfu_inv_proj) (simp_all add: call_upd)
    moreover have "length (lfu_items c1) \<le> length (lfu_items c)"
      by (simp add: c1_def lfu_removeItem_fields length_delete_le)
    moreover have "csize c1 = csize c" "length (freqList c1) = length (freqList c)"
      by (simp_all add: c1_def lfu_removeItem_fields)
    ultimately show ?thesis using Some True i1
      by (auto simp: lfu_getValue_def Let_def c1_def[symmetric] call_upd)
  next
    case False
    from lfu_increment_inv[OF inv mem] obtain c1 where
      r: "lfu_increment k item c = Some c1" and i1: "lfu_inv c1"
      and its: "lfu_items c1 = AList.update k (item\<lparr>freqElement := Suc (freqElement item)\<rparr>) (lfu_items c)"
      and rest: "length (freqList c) \<le> length (freqList c1)" "csize c1 = csize c"
      by blast
    have "lfu_inv (IncrHitCount c1) = lfu_inv c1"
      by (rule lfu_inv_proj) (simp_all add: call_upd)
    moreover have "length (lfu_items c1) = length (lfu_items c)"
      by (simp add: its length_update_mem[OF Some])
    ultimately show ?thesis using Some False r i1 rest
      by (auto simp: lfu_getValue_def call_upd)
  qed
qed

lemma lfu_get_inv:
  fixes c :: "('k, 'v) lfuCache"
  assumes inv: "lfu_inv c"
  shows "\<exists>r c'. lfu_get k onLoad now c = Some (r, c') \<and> lfu_inv c' \<and> csize c' = csize c \<and>
           length (lfu_items c') \<le> length (lfu_items c) \<and>
           length (freqList c) \<le> length (freqList c')"
proof -
  from lfu_getValue_inv[OF inv, of k onLoad now] obtain r c' where
    "lfu_getValue k onLoad now c = Some (r, c')" "lfu_inv c'" "csize c' = csize c"
    "length (lfu_items c') \<le> length (lfu_items c)" "length (freqList c) \<le> length (freqList c')"
    by blast
  then show ?thesis by (cases r) (auto simp: lfu_get_def)
qed

lemma lfu_remove_inv:
  fixes c :: "('k, 'v) lfuCache"
  assumes inv: "lfu_inv c"
  shows "lfu_inv (snd (lfu_remove k c)) \<and> csize (snd (lfu_remove k c)) = csize c \<and>
         length (lfu_items (snd (lfu_remove k c))) \<le> length (lfu_items c) \<and>
         length (freqList (snd (lfu_remove k c))) = length (freqList c)"
proof (cases "map_of (lfu_items c) k")
  case None
  with inv show ?thesis by (simp add: lfu_remove_def)
next
  case (Some item)
  then have mem: "(k, item) \<in> set (lfu_items c)" by (rule map_of_SomeD)
  from lfu_inv_removeItem[OF inv mem] Some show ?thesis
    by (simp add: lfu_remove_def lfu_removeItem_fields length_delete_le)
qed

lemma lfu_set_expiration_inv:
  fixes c :: "('k, 'v) lfuCache"
  shows "lfu_inv (c\<lparr>lfu_items := set_item_expiration k t (lfu_items c)\<rparr>) = lfu_inv c"
  by (rule lfu_inv_proj) (simp_all add: lfu_proj_set_item_expiration)

lemma lfu_Purge_inv: "lfu_inv (lfu_Purge c)"
  by (simp add: lfu_Purge_def lfu_inv_init)

lemma lfu_Purge_fields: "csize (lfu_Purge c) = csize c" "lfu_items (lfu_Purge c) = []"
  "hitCount (lfu_Purge c) = hitCount c" "missCount (lfu_Purge c) = missCount c"
  by (simp_all add: lfu_Purge_def lfu_init_def call_upd)


lemma getWithLoader_preserves:
  assumes set: "\<And>k v now c. P c \<Longrightarrow> \<exists>r. cache_set m k v now c = Some r \<and> (\<forall>c'. r = Inr c' \<longrightarrow> P c')"
    and exp: "\<And>k t c. E \<Longrightarrow> P c \<Longrightarrow> P (cache_set_expiration m k t c)"
    and nottl: "\<And>c f k. \<not> E \<Longrightarrow> P c \<Longrightarrow> cache_loader m c = Some f \<Longrightarrow> fst (snd (f k)) = None"
    and P: "P c"
  shows "\<exists>r c'. getWithLoader m key isWait now c = Some (r, c') \<and> P c'"
proof (cases "cache_loader m c")
  case None
  with P show ?thesis by (simp add: getWithLoader_def)
next
  case (Some loader)
  obtain v ex err where l: "loader key = (v, ex, err)" by (cases "loader key")
  have "\<exists>r c'. loader_callback m key now (loader key) c = Some (r, c') \<and> P c'"
  proof (cases err)
    case (Some e)
    with l P show ?thesis by (simp add: loader_callback_def)
  next
    case None
    from set[OF P, of key v now] obtain r where r: "cache_set m key v now c = Some r"
      and rp: "\<And>c'. r = Inr c' \<Longrightarrow> P c'" by blast
    show ?thesis
    proof (cases r)
      case (Inl e)
      with l None r P show ?thesis by (simp add: loader_callback_def)
    next
      case (Inr c1)
      with rp have P1: "P c1" by simp
      have "P (case ex of None \<Rightarrow> c1 | Some d \<Rightarrow> cache_set_expiration m key (now + d) c1)"
      proof (cases ex)
        case None
        with P1 show ?thesis by simp
      next
        case (Some d)
        have E
        proof (rule ccontr)
          assume "\<not> E"
          from nottl[OF this P \<open>cache_loader m c = Some loader\<close>, of key] l Some show False by simp
        qed
        from exp[OF this P1] Some show ?thesis by simp
      qed
      with l None r Inr show ?thesis by (simp add: loader_callback_def)
    qed
  qed
  then obtain r c' where "loader_callback m key now (loader key) c = Some (r, c')" "P c'" by blast
  with Some show ?thesis
    by (cases r) (auto simp: getWithLoader_def load_def Group_Do_def split: option.splits)
qed

lemma apply_op_preserves:
  assumes set: "\<And>k v now c. P c \<Longrightarrow> \<exists>r. cache_set m k v now c = Some r \<and> (\<forall>c'. r = Inr c' \<longrightarrow> P c')"
    and get: "\<And>k onLoad now c. P c \<Longrightarrow> \<exists>r c'. cache_get m k onLoad now c = Some (r, c') \<and> P c'"
    and exp: "\<And>k t c. E \<Longrightarrow> P c \<Longrightarrow> P (cache_set_expiration m k t c)"
    and rem: "\<And>k c. E \<Longrightarrow> P c \<Longrightarrow> \<exists>b c'. cache_Remove m k c = Some (b, c') \<and> P c'"
    and pur: "\<And>c. P c \<Longrightarrow> P (cache_Purge m c)"
    and nottl: "\<And>c f k. \<not> E \<Longrightarrow> P c \<Longrightarrow> cache_loader m c = Some f \<Longrightarrow> fst (snd (f k)) = None"
    and ok: "\<not> E \<Longrightarrow> op_noexp x"
    and P: "P c"
  shows "\<exists>c'. apply_op m x c = Some c' \<and> P c'"
proof -
  obtain now o' where x: "x = (now, o')" by (cases x)
  have gwl: "\<exists>r c'. getWithLoader m key isWait now c1 = Some (r, c') \<and> P c'"
    if "P c1" for key isWait now c1
    apply (rule getWithLoader_preserves[where P = P and E = E])
       apply (erule set)
      apply (erule (1) exp)
     apply (erule (2) nottl)
    apply (rule that)
    done
  show ?thesis
  proof (cases o')
    case (OpSet k v)
    from set[OF P, of k v now] obtain r where "cache_set m k v now c = Some r" "\<And>c'. r = Inr c' \<Longrightarrow> P c'"
      by blast
    with P x OpSet show ?thesis by (cases r) (auto simp: apply_op_def Set_def)
  next
    case (OpSetWithExpire k v d)
    with ok x have E by auto
    from set[OF P, of k v now] obtain r where "cache_set m k v now c = Some r" "\<And>c'. r = Inr c' \<Longrightarrow> P c'"
      by blast
    with P x OpSetWithExpire exp[OF \<open>E\<close>] show ?thesis
      by (cases r) (auto simp: apply_op_def SetWithExpire_def)
  next
    case (OpGet k)
    from get[OF P, of k False now] obtain r c1 where g: "cache_get m k False now c = Some (r, c1)" "P c1"
      by blast
    from gwl[OF g(2), of k True now] obtain r2 c2 where "getWithLoader m k True now c1 = Some (r2, c2)" "P c2"
      by blast
    with g x OpGet show ?thesis by (cases r) (auto simp: apply_op_def Get_def)
  next
    case (OpGetIFPresent k)
    from get[OF P, of k False now] obtain r c1 where g: "cache_get m k False now c = Some (r, c1)" "P c1"
      by blast
    from gwl[OF g(2), of k False now] obtain r2 c2 where "getWithLoader m k False now c1 = Some (r2, c2)" "P c2"
      by blast
    with g x OpGetIFPresent show ?thesis by (cases r) (auto simp: apply_op_def GetIFPresent_def)
  next
    case (OpRefresh k)
    from gwl[OF P, of k True now] x OpRefresh show ?thesis by (auto simp: apply_op_def Refresh_def)
  next
    case (OpRemove k)
    with ok x have E by auto
    from rem[OF this P, of k] x OpRemove show ?thesis by (auto simp: apply_op_def)
  next
    case OpPurge
    from pur[OF P] x OpPurge show ?thesis by (simp add: apply_op_def)
  qed
qed

lemma run_preserves:
  assumes step: "\<And>x c. Q x \<Longrightarrow> P c \<Longrightarrow> \<exists>c'. apply_op m x c = Some c' \<and> P c'"
    and Q: "list_all Q xs"
    and P: "P c"
  shows "\<exists>c'. run m xs c = Some c' \<and> P c'"
  using Q P
proof (induction xs arbitrary: c)
  case Nil
  then show ?case by simp
next
  case (Cons x xs)
  from Cons.prems have "Q x" "list_all Q xs" by simp_all
  from step[OF \<open>Q x\<close> Cons.prems(2)] obtain c1 where "apply_op m x c = Some c1" "P c1" by blast
  with Cons.IH[OF \<open>list_all Q xs\<close>, of c1] show ?case by simp
qed

lemma al_RemoveTail_simps [simp]:
  "al_RemoveTail [] = None" "al_RemoveTail (ys @ [y]) = Some (y, ys)"
  by (simp_all add: al_RemoveTail_def)

lemma arc_drop_item_upd:
  "arc_drop_item old c =
     c\<lparr>arc_items := AList.delete old (arc_items c),
       events := events c @ (case map_of (arc_items c) old of
                               None \<Rightarrow> []
                             | Some item \<Rightarrow> if evictedFunc c then [Evicted old (item_value item)] else [])\<rparr>"
  by (auto simp: arc_drop_item_def call_upd map_of_eq_None_iff split: option.splits)

lemma keys_delete: "fst ` set (AList.delete k al) = fst ` set al - {k}"
  by (induction al) auto

lemma arc_replace_full:
  fixes c :: "('k, 'v) arcCache"
  assumes pre: "arc_pre key c" and nk: "key \<notin> set (t1 c @ t2 c)" and full: "isCacheFull c"
  shows "\<exists>c'. arc_replace key c = Some c' \<and> arc_pre key c' \<and>
           al_Len (t1 c') + al_Len (t2 c') = csize c - 1 \<and>
           al_Len (t1 c') + al_Len (b1 c') = al_Len (t1 c) + al_Len (b1 c) \<and>
           al_Len (t2 c') + al_Len (b2 c') = al_Len (t2 c) + al_Len (b2 c) \<and>
           (key \<in> set (b1 c') \<longleftrightarrow> key \<in> set (b1 c)) \<and> (key \<in> set (b2 c') \<longleftrightarrow> key \<in> set (b2 c)) \<and>
           key \<notin> set (t1 c' @ t2 c') \<and>
           part c' = part c \<and> csize c' = csize c \<and> expiration c' = expiration c \<and>
           hitCount c' = hitCount c \<and> missCount c' = missCount c"
proof -
  consider (a) "al_Len (t1 c) > 0 \<and> ((al_Has (b2 c) key \<and> al_Len (t1 c) = part c) \<or> al_Len (t1 c) > part c)"
    | (b) "\<not> (al_Len (t1 c) > 0 \<and> ((al_Has (b2 c) key \<and> al_Len (t1 c) = part c) \<or> al_Len (t1 c) > part c))"
          "al_Len (t2 c) > 0"
    | (c) "\<not> (al_Len (t1 c) > 0 \<and> ((al_Has (b2 c) key \<and> al_Len (t1 c) = part c) \<or> al_Len (t1 c) > part c))"
          "\<not> al_Len (t2 c) > 0"
    by blast
  then show ?thesis
  proof cases
    case a
    then obtain ys y where t: "t1 c = ys @ [y]"
      by (cases "t1 c" rule: rev_cases) (auto simp: al_Len_def)
    have r: "arc_replace key c = Some (arc_drop_item y (c\<lparr>t1 := ys, b1 := y # b1 c\<rparr>))"
      using a full pre t by (auto simp: arc_replace_def al_PushFront_def arc_pre_def)
    show ?thesis unfolding r using pre nk full t
      by (auto simp: arc_pre_def arc_drop_item_upd keys_delete distinct_delete al_Len_def isCacheFull_def)
  next
    case b
    then obtain ys y where t: "t2 c = ys @ [y]"
      by (cases "t2 c" rule: rev_cases) (auto simp: al_Len_def)
    have r: "arc_replace key c = Some (arc_drop_item y (c\<lparr>t2 := ys, b2 := y # b2 c\<rparr>))"
      using b full pre t by (auto simp: arc_replace_def al_PushFront_def arc_pre_def)
    show ?thesis unfolding r using pre nk full t
      by (auto simp: arc_pre_def arc_drop_item_upd keys_delete distinct_delete al_Len_def isCacheFull_def)
  next
    case c
    with full pre have "al_Len (t1 c) > 0" by (auto simp: isCacheFull_def arc_pre_def al_Len_def)
    then obtain ys y where t: "t1 c = ys @ [y]"
      by (cases "t1 c" rule: rev_cases) (auto simp: al_Len_def)
    have r: "arc_replace key c = Some (arc_drop_item y (c\<lparr>t1 := ys, b1 := y # b1 c\<rparr>))"
      using c full pre t by (auto simp: arc_replace_def al_PushFront_def arc_pre_def)
    show ?thesis unfolding r using pre nk full t
      by (auto simp: arc_pre_def arc_drop_item_upd keys_delete distinct_delete al_Len_def isCacheFull_def)
  qed
qed

lemma arc_replace_ok:
  fixes c :: "('k, 'v) arcCache"
  assumes pre: "arc_pre key c" and nk: "key \<notin> set (t1 c @ t2 c)"
  shows "\<exists>c'. arc_replace key c = Some c' \<and> arc_pre key c' \<and>
           al_Len (t1 c') + al_Len (t2 c') \<le> csize c - 1 \<and>
           (isCacheFull c \<longrightarrow> al_Len (t1 c') + al_Len (t2 c') = csize c - 1) \<and>
           (\<not> isCacheFull c \<longrightarrow> b1 c' = b1 c \<and> b2 c' = b2 c \<and> t1 c' = t1 c \<and> t2 c' = t2 c) \<and>
           al_Len (t1 c') + al_Len (b1 c') = al_Len (t1 c) + al_Len (b1 c) \<and>
           al_Len (t2 c') + al_Len (b2 c') = al_Len (t2 c) + al_Len (b2 c) \<and>
           (key \<in> set (b1 c') \<longleftrightarrow> key \<in> set (b1 c)) \<and> (key \<in> set (b2 c') \<longleftrightarrow> key \<in> set (b2 c)) \<and>
           key \<notin> set (t1 c' @ t2 c') \<and>
           part c' = part c \<and> csize c' = csize c \<and> expiration c' = expiration c \<and>
           hitCount c' = hitCount c \<and> missCount c' = missCount c"
proof (cases "isCacheFull c")
  case True
  from arc_replace_full[OF pre nk True] True show ?thesis by auto
next
  case False
  with pre have "al_Len (t1 c) + al_Len (t2 c) \<le> csize c - 1"
    by (auto simp: isCacheFull_def arc_pre_def)
  with False pre nk show ?thesis by (simp add: arc_replace_def)
qed

lemma arc_pre_setPart:
  "arc_pre key c \<Longrightarrow> 0 \<le> p \<Longrightarrow> p \<le> csize c \<Longrightarrow> arc_pre key (setPart p c)"
  by (simp add: arc_pre_def setPart_def)

lemma setPart_fields [simp]:
  "t1 (setPart p c) = t1 c" "t2 (setPart p c) = t2 c" "b1 (setPart p c) = b1 c" "b2 (setPart p c) = b2 c"
  "csize (setPart p c) = csize c" "arc_items (setPart p c) = arc_items c"
  "hitCount (setPart p c) = hitCount c" "missCount (setPart p c) = missCount c"
  "expiration (setPart p c) = expiration c" "isCacheFull (setPart p c) = isCacheFull c"
  by (simp_all add: setPart_def isCacheFull_def)

lemma arc_set_lists_ok:
  fixes c :: "('k, 'v) arcCache"
  assumes pre: "arc_pre key c"
  shows "\<exists>c'. arc_set_lists key c = Some c' \<and> arc_inv c' \<and> (arc_extra c \<longrightarrow> arc_extra c') \<and>
           csize c' = csize c \<and> expiration c' = expiration c \<and>
           hitCount c' = hitCount c \<and> missCount c' = missCount c"
proof -
  from pre have N: "0 < csize c" and pr: "0 \<le> part c" "part c \<le> csize c"
    and le: "al_Len (t1 c) + al_Len (t2 c) \<le> csize c"
    and tot: "al_Len (t1 c) + al_Len (t2 c) + al_Len (b1 c) + al_Len (b2 c) \<le> 2 * csize c"
    by (simp_all add: arc_pre_def)
  consider (live) "key \<in> set (t1 c @ t2 c)"
    | (g1) "key \<notin> set (t1 c @ t2 c)" "key \<in> set (b1 c)"
    | (g2) "key \<notin> set (t1 c @ t2 c)" "key \<notin> set (b1 c)" "key \<in> set (b2 c)"
    | (fresh) "key \<notin> set (t1 c @ t2 c)" "key \<notin> set (b1 c)" "key \<notin> set (b2 c)"
    by blast
  then show ?thesis
  proof cases
    case live
    then have "arc_set_lists key c = Some c" by (auto simp: arc_set_lists_def al_Has_def)
    moreover from live pre have "arc_inv c" by (auto simp: arc_pre_def arc_inv_def insert_absorb)
    ultimately show ?thesis by simp
  next
    case g1
    define p where "p = minInt (csize c) (part c + maxInt (al_Len (b2 c) div al_Len (b1 c)) 1)"
    have p: "0 \<le> p" "p \<le> csize c" using N pr by (auto simp: p_def minInt_def maxInt_def)
    have pre1: "arc_pre key (setPart p c)" by (rule arc_pre_setPart[OF pre p])
    from arc_replace_ok[OF pre1] g1 obtain c1 where
      r: "arc_replace key (setPart p c) = Some c1" and pre2: "arc_pre key c1"
      and f: "al_Len (t1 c1) + al_Len (t2 c1) \<le> csize c - 1"
         "isCacheFull c \<longrightarrow> al_Len (t1 c1) + al_Len (t2 c1) = csize c - 1"
         "\<not> isCacheFull c \<longrightarrow> b1 c1 = b1 c \<and> b2 c1 = b2 c \<and> t1 c1 = t1 c \<and> t2 c1 = t2 c"
         "al_Len (t1 c1) + al_Len (b1 c1) = al_Len (t1 c) + al_Len (b1 c)"
         "al_Len (t2 c1) + al_Len (b2 c1) = al_Len (t2 c) + al_Len (b2 c)"
         "key \<in> set (b1 c1)" "csize c1 = csize c" "expiration c1 = expiration c"
         "hitCount c1 = hitCount c" "missCount c1 = missCount c"
      by auto
    have res: "arc_set_lists key c = Some (c1\<lparr>b1 := al_Remove key (b1 c1), t2 := al_PushFront key (t2 c1)\<rparr>)"
      using g1 r by (auto simp: arc_set_lists_def al_Has_def p_def)
    from pre2 f(6) have nk2: "key \<notin> set (t1 c1)" "key \<notin> set (t2 c1)" "key \<notin> set (b2 c1)"
      by (auto simp: arc_pre_def)
    have lenb: "int (length (remove1 key (b1 c1))) = int (length (b1 c1)) - 1"
      using f(6) by (simp add: length_remove1) (cases "b1 c1", auto)
    have inv: "arc_inv (c1\<lparr>b1 := al_Remove key (b1 c1), t2 := al_PushFront key (t2 c1)\<rparr>)"
      using pre2 nk2 f(1,7) lenb
      by (auto simp: arc_inv_def arc_pre_def al_Remove_def al_PushFront_def al_Len_def)
    have ex: "arc_extra (c1\<lparr>b1 := al_Remove key (b1 c1), t2 := al_PushFront key (t2 c1)\<rparr>)" if "arc_extra c"
    proof -
      from that g1 have "isCacheFull c" by (auto simp: arc_extra_def)
      with f(2) that f(4,7) nk2 lenb show ?thesis
        by (auto simp: arc_extra_def isCacheFull_def al_Remove_def al_PushFront_def al_Len_def)
    qed
    show ?thesis using res inv ex f by simp
  next
    case g2
    define p where "p = maxInt 0 (part c - maxInt (al_Len (b1 c) div al_Len (b2 c)) 1)"
    have p: "0 \<le> p" "p \<le> csize c" using N pr by (auto simp: p_def minInt_def maxInt_def)
    have pre1: "arc_pre key (setPart p c)" by (rule arc_pre_setPart[OF pre p])
    from arc_replace_ok[OF pre1] g2 obtain c1 where
      r: "arc_replace key (setPart p c) = Some c1" and pre2: "arc_pre key c1"
      and f: "al_Len (t1 c1) + al_Len (t2 c1) \<le> csize c - 1"
         "isCacheFull c \<longrightarrow> al_Len (t1 c1) + al_Len (t2 c1) = csize c - 1"
         "\<not> isCacheFull c \<longrightarrow> b1 c1 = b1 c \<and> b2 c1 = b2 c \<and> t1 c1 = t1 c \<and> t2 c1 = t2 c"
         "al_Len (t1 c1) + al_Len (b1 c1) = al_Len (t1 c) + al_Len (b1 c)"
         "al_Len (t2 c1) + al_Len (b2 c1) = al_Len (t2 c) + al_Len (b2 c)"
         "key \<in> set (b2 c1)" "csize c1 = csize c" "expiration c1 = expiration c"
         "hitCount c1 = hitCount c" "missCount c1 = missCount c"
      by auto
    have res: "arc_set_lists key c = Some (c1\<lparr>b2 := al_Remove key (b2 c1), t2 := al_PushFront key (t2 c1)\<rparr>)"
      using g2 r by (auto simp: arc_set_lists_def al_Has_def p_def)
    from pre2 f(6) have nk2: "key \<notin> set (t1 c1)" "key \<notin> set (t2 c1)" "key \<notin> set (b1 c1)"
      by (auto simp: arc_pre_def)
    have lenb: "int (length (remove1 key (b2 c1))) = int (length (b2 c1)) - 1"
      using f(6) by (simp add: length_remove1) (cases "b2 c1", auto)
    have inv: "arc_inv (c1\<lparr>b2 := al_Remove key (b2 c1), t2 := al_PushFront key (t2 c1)\<rparr>)"
      using pre2 nk2 f(1,7) lenb
      by (auto simp: arc_inv_def arc_pre_def al_Remove_def al_PushFront_def al_Len_def)
    have ex: "arc_extra (c1\<lparr>b2 := al_Remove key (b2 c1), t2 := al_PushFront key (t2 c1)\<rparr>)" if "arc_extra c"
    proof -
      from that g2 have "isCacheFull c" by (auto simp: arc_extra_def)
      with f(2) that f(4,7) nk2 lenb show ?thesis
        by (auto simp: arc_extra_def isCacheFull_def al_Remove_def al_PushFront_def al_Len_def)
    qed
    show ?thesis using res inv ex f by simp
  next
    case fresh
    have push: "arc_inv (c1\<lparr>t1 := al_PushFront key (t1 c1)\<rparr>)"
      if "arc_pre key c1" "key \<notin> set (t1 c1 @ t2 c1 @ b1 c1 @ b2 c1)"
         "al_Len (t1 c1) + al_Len (t2 c1) \<le> csize c1 - 1"
         "al_Len (t1 c1) + al_Len (t2 c1) + al_Len (b1 c1) + al_Len (b2 c1) \<le> 2 * csize c1 - 1"
      for c1 :: "('k, 'v) arcCache"
      using that by (auto simp: arc_inv_def arc_pre_def al_PushFront_def al_Len_def)
    let ?A = "isCacheFull c \<and> al_Len (t1 c) + al_Len (b1 c) = csize c"
    let ?total = "al_Len (t1 c) + al_Len (b1 c) + al_Len (t2 c) + al_Len (b2 c)"
    consider (A1) "?A" "al_Len (t1 c) < csize c"
      | (A2) "?A" "\<not> al_Len (t1 c) < csize c"
      | (B1) "\<not> ?A" "?total \<ge> csize c" "?total = 2 * csize c" "al_Len (b2 c) > 0"
      | (B2) "\<not> ?A" "?total \<ge> csize c" "?total = 2 * csize c" "\<not> al_Len (b2 c) > 0"
      | (B3) "\<not> ?A" "?total \<ge> csize c" "?total \<noteq> 2 * csize c"
      | (B4) "\<not> ?A" "\<not> ?total \<ge> csize c"
      by blast
    then show ?thesis
    proof cases
      case A1
      then obtain ys y where b: "b1 c = ys @ [y]"
        by (cases "b1 c" rule: rev_cases) (auto simp: al_Len_def)
      define c0 where "c0 = c\<lparr>b1 := ys\<rparr>"
      have pre0: "arc_pre key c0" using pre b by (auto simp: arc_pre_def c0_def al_Len_def)
      have full0: "isCacheFull c0" using A1 by (simp add: c0_def isCacheFull_def)
      from arc_replace_ok[OF pre0] fresh full0 obtain c1 where
        r: "arc_replace key c0 = Some c1" and pre1: "arc_pre key c1"
        and f: "al_Len (t1 c1) + al_Len (t2 c1) = csize c0 - 1"
          "al_Len (t1 c1) + al_Len (b1 c1) = al_Len (t1 c0) + al_Len (b1 c0)"
          "al_Len (t2 c1) + al_Len (b2 c1) = al_Len (t2 c0) + al_Len (b2 c0)"
          "key \<notin> set (b1 c1)" "key \<notin> set (b2 c1)" "key \<notin> set (t1 c1 @ t2 c1)"
          "csize c1 = csize c0" "expiration c1 = expiration c0"
          "hitCount c1 = hitCount c0" "missCount c1 = missCount c0"
        using b by (auto simp: c0_def)
      have res: "arc_set_lists key c = Some (c1\<lparr>t1 := al_PushFront key (t1 c1)\<rparr>)"
        using fresh A1 b r by (auto simp: arc_set_lists_def al_Has_def c0_def)
      have inv: "arc_inv (c1\<lparr>t1 := al_PushFront key (t1 c1)\<rparr>)"
        using pre1 f tot b by (intro push) (auto simp: c0_def al_Len_def)
      have ex: "arc_extra (c1\<lparr>t1 := al_PushFront key (t1 c1)\<rparr>)"
        using f A1 b by (auto simp: arc_extra_def isCacheFull_def al_PushFront_def al_Len_def c0_def)
      show ?thesis using res inv ex f by (simp add: c0_def)
    next
      case A2
      with N have "t1 c \<noteq> []" by (auto simp: al_Len_def)
      then obtain ys y where t: "t1 c = ys @ [y]" by (cases "t1 c" rule: rev_cases) auto
      define c1 where "c1 = arc_drop_item y (c\<lparr>t1 := ys\<rparr>)"
      have res: "arc_set_lists key c = Some (c1\<lparr>t1 := al_PushFront key (t1 c1)\<rparr>)"
        using fresh A2 t by (auto simp: arc_set_lists_def al_Has_def c1_def)
      have pre1: "arc_pre key c1" using pre t fresh
        by (auto simp: arc_pre_def c1_def arc_drop_item_upd keys_delete distinct_delete al_Len_def)
      have inv: "arc_inv (c1\<lparr>t1 := al_PushFront key (t1 c1)\<rparr>)"
        using pre1 fresh t le tot
        by (intro push) (auto simp: c1_def arc_drop_item_upd al_Len_def)
      have ex: "arc_extra (c1\<lparr>t1 := al_PushFront key (t1 c1)\<rparr>)"
        using A2 t fresh
        by (auto simp: arc_extra_def isCacheFull_def al_PushFront_def al_Len_def c1_def arc_drop_item_upd)
      show ?thesis using res inv ex by (simp add: c1_def arc_drop_item_upd)
    next
      case B1
      then obtain ys y where b: "b2 c = ys @ [y]"
        by (cases "b2 c" rule: rev_cases) (auto simp: al_Len_def)
      define c0 where "c0 = c\<lparr>b2 := ys\<rparr>"
      have pre0: "arc_pre key c0" using pre b by (auto simp: arc_pre_def c0_def al_Len_def)
      from arc_replace_ok[OF pre0] fresh obtain c1 where
        r: "arc_replace key c0 = Some c1" and pre1: "arc_pre key c1"
        and f: "al_Len (t1 c1) + al_Len (t2 c1) \<le> csize c0 - 1"
          "isCacheFull c0 \<longrightarrow> al_Len (t1 c1) + al_Len (t2 c1) = csize c0 - 1"
          "al_Len (t1 c1) + al_Len (b1 c1) = al_Len (t1 c0) + al_Len (b1 c0)"
          "al_Len (t2 c1) + al_Len (b2 c1) = al_Len (t2 c0) + al_Len (b2 c0)"
          "key \<notin> set (b1 c1)" "key \<notin> set (b2 c1)" "key \<notin> set (t1 c1 @ t2 c1)"
          "csize c1 = csize c0" "expiration c1 = expiration c0"
          "hitCount c1 = hitCount c0" "missCount c1 = missCount c0"
        using b by (auto simp: c0_def)
      have res: "arc_set_lists key c = Some (c1\<lparr>t1 := al_PushFront key (t1 c1)\<rparr>)"
        using fresh B1 b r by (auto simp: arc_set_lists_def al_Has_def c0_def Let_def)
      have inv: "arc_inv (c1\<lparr>t1 := al_PushFront key (t1 c1)\<rparr>)"
        using pre1 f tot b by (intro push) (auto simp: c0_def al_Len_def)
      have ex: "arc_extra (c1\<lparr>t1 := al_PushFront key (t1 c1)\<rparr>)" if "arc_extra c"
      proof -
        from that b have full: "isCacheFull c" by (auto simp: arc_extra_def)
        with that B1 have "al_Len (t1 c) + al_Len (b1 c) < csize c" by (auto simp: arc_extra_def)
        with f full show ?thesis
          by (auto simp: arc_extra_def isCacheFull_def al_PushFront_def al_Len_def c0_def)
      qed
      show ?thesis using res inv ex f by (simp add: c0_def)
    next
      case B2
      with le N have "b1 c \<noteq> []" by (auto simp: al_Len_def)
      then obtain ys y where b: "b1 c = ys @ [y]" by (cases "b1 c" rule: rev_cases) auto
      define c0 where "c0 = c\<lparr>b1 := ys\<rparr>"
      have pre0: "arc_pre key c0" using pre b by (auto simp: arc_pre_def c0_def al_Len_def)
      from arc_replace_ok[OF pre0] fresh obtain c1 where
        r: "arc_replace key c0 = Some c1" and pre1: "arc_pre key c1"
        and f: "al_Len (t1 c1) + al_Len (t2 c1) \<le> csize c0 - 1"
          "isCacheFull c0 \<longrightarrow> al_Len (t1 c1) + al_Len (t2 c1) = csize c0 - 1"
          "al_Len (t1 c1) + al_Len (b1 c1) = al_Len (t1 c0) + al_Len (b1 c0)"
          "al_Len (t2 c1) + al_Len (b2 c1) = al_Len (t2 c0) + al_Len (b2 c0)"
          "key \<notin> set (b1 c1)" "key \<notin> set (b2 c1)" "key \<notin> set (t1 c1 @ t2 c1)"
          "csize c1 = csize c0" "expiration c1 = expiration c0"
          "hitCount c1 = hitCount c0" "missCount c1 = missCount c0"
        using b by (auto simp: c0_def)
      have res: "arc_set_lists key c = Some (c1\<lparr>t1 := al_PushFront key (t1 c1)\<rparr>)"
        using fresh B2 b r by (auto simp: arc_set_lists_def al_Has_def c0_def Let_def)
      have inv: "arc_inv (c1\<lparr>t1 := al_PushFront key (t1 c1)\<rparr>)"
        using pre1 f tot b by (intro push) (auto simp: c0_def al_Len_def)
      have ex: "arc_extra (c1\<lparr>t1 := al_PushFront key (t1 c1)\<rparr>)" if "arc_extra c"
      proof -
        from that b have full: "isCacheFull c" by (auto simp: arc_extra_def)
        with f that b show ?thesis
          by (auto simp: arc_extra_def isCacheFull_def al_PushFront_def al_Len_def c0_def)
      qed
      show ?thesis using res inv ex f by (simp add: c0_def)
    next
      case B3
      from arc_replace_ok[OF pre] fresh obtain c1 where
        r: "arc_replace key c = Some c1" and pre1: "arc_pre key c1"
        and f: "al_Len (t1 c1) + al_Len (t2 c1) \<le> csize c - 1"
          "isCacheFull c \<longrightarrow> al_Len (t1 c1) + al_Len (t2 c1) = csize c - 1"
          "\<not> isCacheFull c \<longrightarrow> b1 c1 = b1 c \<and> b2 c1 = b2 c \<and> t1 c1 = t1 c \<and> t2 c1 = t2 c"
          "al_Len (t1 c1) + al_Len (b1 c1) = al_Len (t1 c) + al_Len (b1 c)"
          "al_Len (t2 c1) + al_Len (b2 c1) = al_Len (t2 c) + al_Len (b2 c)"
          "key \<notin> set (b1 c1)" "key \<notin> set (b2 c1)" "key \<notin> set (t1 c1 @ t2 c1)"
          "csize c1 = csize c" "expiration c1 = expiration c"
          "hitCount c1 = hitCount c" "missCount c1 = missCount c"
        by auto
      have res: "arc_set_lists key c = Some (c1\<lparr>t1 := al_PushFront key (t1 c1)\<rparr>)"
        using fresh B3 r by (auto simp: arc_set_lists_def al_Has_def Let_def)
      have inv: "arc_inv (c1\<lparr>t1 := al_PushFront key (t1 c1)\<rparr>)"
        using pre1 f tot B3 by (intro push) (auto simp: al_Len_def)
      have ex: "arc_extra (c1\<lparr>t1 := al_PushFront key (t1 c1)\<rparr>)" if "arc_extra c"
      proof (cases "isCacheFull c")
        case True
        with that B3 have "al_Len (t1 c) + al_Len (b1 c) < csize c" by (auto simp: arc_extra_def)
        with f True show ?thesis
          by (auto simp: arc_extra_def isCacheFull_def al_PushFront_def al_Len_def)
      next
        case False
        with that have "b1 c = []" "b2 c = []" by (auto simp: arc_extra_def)
        with f False le show ?thesis
          by (auto simp: arc_extra_def isCacheFull_def al_PushFront_def al_Len_def)
      qed
      show ?thesis using res inv ex f by simp
    next
      case B4
      have res: "arc_set_lists key c = Some (c\<lparr>t1 := al_PushFront key (t1 c)\<rparr>)"
        using fresh B4 by (auto simp: arc_set_lists_def al_Has_def Let_def)
      have inv: "arc_inv (c\<lparr>t1 := al_PushFront key (t1 c)\<rparr>)"
        using pre fresh B4 N by (intro push) (auto simp: al_Len_def)
      have ex: "arc_extra (c\<lparr>t1 := al_PushFront key (t1 c)\<rparr>)" if "arc_extra c"
        using that B4 fresh
        by (auto simp: arc_extra_def isCacheFull_def al_PushFront_def al_Len_def)
      show ?thesis using res inv ex by simp
    qed
  qed
qed

lemma arc_replace_frame:
  "arc_replace key c = Some c' \<Longrightarrow>
     same_config c c' \<and> same_stats c c' \<and> set (arc_items c') \<subseteq> set (arc_items c) \<and> part c' = part c"
  by (auto simp: arc_replace_def arc_drop_item_upd same_config_def same_stats_def set_delete
           split: if_splits option.splits)

lemma arc_set_lists_frame:
  assumes "arc_set_lists key c = Some c'"
  shows "same_config c c' \<and> same_stats c c' \<and> set (arc_items c') \<subseteq> set (arc_items c)"
  using assms
  by (auto simp: arc_set_lists_def Let_def arc_drop_item_upd same_config_def same_stats_def
        set_delete setPart_def
      dest!: arc_replace_frame split: if_splits option.splits prod.splits)

lemma same_config_refl [simp]: "same_config c c" by (simp add: same_config_def)
lemma same_stats_refl [simp]: "same_stats c c" by (simp add: same_stats_def)
lemma same_config_trans: "same_config a b \<Longrightarrow> same_config b c \<Longrightarrow> same_config a c"
  by (simp add: same_config_def)
lemma same_stats_trans: "same_stats a b \<Longrightarrow> same_stats b c \<Longrightarrow> same_stats a c"
  by (simp add: same_stats_def)

lemma set_set_item_expiration_noexp:
  "map_of al k = None \<Longrightarrow> set_item_expiration k t al = al"
  by (simp add: set_item_expiration_def)

lemma set_update_subset: "set (AList.update k v al) \<subseteq> insert (k, v) (set al)"
  by (induction al) auto

lemma arc_set_ok:
  fixes c :: "('k, 'v) arcCache"
  assumes inv: "arc_inv c"
  shows "\<exists>r. arc_set k v now c = Some r \<and>
           (\<forall>c'. r = Inr c' \<longrightarrow>
              arc_inv c' \<and> same_config c c' \<and> same_stats c c' \<and> (arc_extra c \<longrightarrow> arc_extra c') \<and>
              (expiration c = None \<longrightarrow>
                 list_all (\<lambda>(k, item). item_expiration item = None) (arc_items c) \<longrightarrow>
                 list_all (\<lambda>(k, item). item_expiration item = None) (arc_items c')))"
proof (cases "serialize c k v")
  case (Inl e)
  then show ?thesis by (simp add: arc_set_def)
next
  case (Inr w)
  define new where "new = (case map_of (arc_items c) k of
                             Some item \<Rightarrow> item\<lparr>item_value := w\<rparr>
                           | None \<Rightarrow> \<lparr>item_value = w, item_expiration = None\<rparr>)"
  define c1 where "c1 = c\<lparr>arc_items := AList.update k new (arc_items c)\<rparr>"
  define c2 where "c2 = (case expiration c1 of None \<Rightarrow> c1
                         | Some d \<Rightarrow> c1\<lparr>arc_items := set_item_expiration k (now + d) (arc_items c1)\<rparr>)"
  have keys2: "map fst (arc_items c2) = map fst (arc_items c1)"
    by (simp add: c2_def split: option.splits)
  have pre: "arc_pre k c2"
    using inv unfolding arc_pre_def arc_inv_def keys2
    by (auto simp: c2_def c1_def distinct_update dom_update split: option.splits)
  have ex2: "arc_extra c2 = arc_extra c"
    by (simp add: arc_extra_def c2_def c1_def isCacheFull_def split: option.splits)
  have cfg2: "same_config c c2" "same_stats c c2"
    by (simp_all add: same_config_def same_stats_def c2_def c1_def split: option.splits)
  from arc_set_lists_ok[OF pre] obtain c3 where
    r3: "arc_set_lists k c2 = Some c3" and inv3: "arc_inv c3" and ex3: "arc_extra c2 \<longrightarrow> arc_extra c3"
    by blast
  from arc_set_lists_frame[OF r3] have fr: "same_config c2 c3" "same_stats c2 c3"
    "set (arc_items c3) \<subseteq> set (arc_items c2)" by simp_all
  have res: "arc_set k v now c = Some (Inr (call_added k w c3))"
    using Inr r3 by (simp add: arc_set_def c2_def c1_def new_def Let_def split: option.splits)
  have noexp: "list_all (\<lambda>(k, item). item_expiration item = None) (arc_items c3)"
    if "expiration c = None" "list_all (\<lambda>(k, item). item_expiration item = None) (arc_items c)"
  proof -
    have "item_expiration new = None"
      using that(2) by (auto simp: new_def list_all_iff split: option.splits dest!: map_of_SomeD)
    then have "list_all (\<lambda>(k, item). item_expiration item = None) (arc_items c1)"
      using that(2) set_update_subset[of k new "arc_items c"] by (auto simp: c1_def list_all_iff)
    moreover have "c2 = c1" using that(1) by (simp add: c2_def c1_def)
    ultimately show ?thesis using fr(3) by (auto simp: list_all_iff)
  qed
  have "arc_inv (call_added k w c3)" using inv3 by (simp add: arc_inv_def call_upd al_Len_def)
  moreover have "same_config c (call_added k w c3)" "same_stats c (call_added k w c3)"
    using cfg2 fr by (simp_all add: same_config_def same_stats_def call_upd)
  moreover have "arc_extra (call_added k w c3) = arc_extra c3"
    by (simp add: arc_extra_def call_upd isCacheFull_def)
  moreover have "arc_items (call_added k w c3) = arc_items c3" by (simp add: call_upd)
  ultimately show ?thesis using res ex3 ex2 noexp by simp
qed

lemma int_length_remove1: "k \<in> set xs \<Longrightarrow> int (length (remove1 k xs)) = int (length xs) - 1"
proof -
  assume k: "k \<in> set xs"
  then obtain n where "length xs = Suc n" by (cases xs) auto
  with k show ?thesis by (simp add: length_remove1)
qed

lemma arc_inv_item:
  "arc_inv c \<Longrightarrow> k \<in> set (t1 c @ t2 c) \<Longrightarrow> \<exists>item. map_of (arc_items c) k = Some item"
  by (cases "map_of (arc_items c) k") (auto simp: arc_inv_def map_of_eq_None_iff)

lemma arc_getValue_t1_ok:
  fixes c :: "('k, 'v) arcCache"
  assumes inv: "arc_inv c"
  shows "\<exists>r. arc_getValue_t1 k onLoad now c = Some r \<and>
           (case r of
              Inl (v, c') \<Rightarrow> arc_inv c' \<and> same_config c c' \<and> set (arc_items c') \<subseteq> set (arc_items c) \<and>
                 (arc_extra c \<longrightarrow> arc_extra c') \<and>
                 (\<exists>item. map_of (arc_items c) k = Some item \<and> \<not> IsExpired item now \<and> v = item_value item) \<and>
                 hitCount c' = hitCount c + (if onLoad then 0 else 1) \<and> missCount c' = missCount c
            | Inr c' \<Rightarrow> arc_inv c' \<and> same_config c c' \<and> same_stats c c' \<and>
                 set (arc_items c') \<subseteq> set (arc_items c) \<and> k \<notin> set (t1 c') \<and>
                 (k \<in> set (t2 c') \<longleftrightarrow> k \<notin> set (t1 c) \<and> k \<in> set (t2 c)) \<and>
                 (k \<in> set (t1 c) \<longrightarrow> (\<exists>item. map_of (arc_items c) k = Some item \<and> IsExpired item now)) \<and>
                 (k \<notin> set (t1 c) \<longrightarrow> c' = c))"
proof (cases "k \<in> set (t1 c)")
  case False
  with inv show ?thesis by (simp add: arc_getValue_t1_def al_Has_def)
next
  case True
  with arc_inv_item[OF inv, of k] obtain item where it: "map_of (arc_items c) k = Some item" by auto
  from inv True have nk: "k \<notin> set (t2 c)" "k \<notin> set (b1 c)" "k \<notin> set (b2 c)"
    by (auto simp: arc_inv_def)
  show ?thesis
  proof (cases "IsExpired item now")
    case False
    show ?thesis
      using inv True it nk False
      by (auto simp: arc_getValue_t1_def al_Has_def al_Remove_def al_PushFront_def al_Len_def
          arc_inv_def same_config_def call_upd int_length_remove1 arc_extra_def isCacheFull_def Let_def)
  next
    case exp: True
    show ?thesis
      using inv True it nk exp
      by (auto simp: arc_getValue_t1_def al_Has_def al_Remove_def al_PushFront_def al_Len_def
          arc_inv_def same_config_def same_stats_def call_upd int_length_remove1 Let_def
          keys_delete distinct_delete set_delete)
  qed
qed

lemma arc_getValue_t2_ok:
  fixes c :: "('k, 'v) arcCache"
  assumes inv: "arc_inv c"
  shows "\<exists>r. arc_getValue_t2 k onLoad now c = Some r \<and>
           (case r of
              Inl (v, c') \<Rightarrow> arc_inv c' \<and> same_config c c' \<and> set (arc_items c') \<subseteq> set (arc_items c) \<and>
                 (arc_extra c \<longrightarrow> arc_extra c') \<and>
                 (\<exists>item. map_of (arc_items c) k = Some item \<and> \<not> IsExpired item now \<and> v = item_value item) \<and>
                 hitCount c' = hitCount c + (if onLoad then 0 else 1) \<and> missCount c' = missCount c
            | Inr c' \<Rightarrow> arc_inv c' \<and> same_config c c' \<and> same_stats c c' \<and>
                 set (arc_items c') \<subseteq> set (arc_items c) \<and>
                 (k \<in> set (t2 c) \<longrightarrow> (\<exists>item. map_of (arc_items c) k = Some item \<and> IsExpired item now)) \<and>
                 (k \<notin> set (t2 c) \<longrightarrow> c' = c))"
proof (cases "k \<in> set (t2 c)")
  case False
  with inv show ?thesis by (simp add: arc_getValue_t2_def al_Has_def)
next
  case True
  with arc_inv_item[OF inv, of k] obtain item where it: "map_of (arc_items c) k = Some item" by auto
  from inv True have nk: "k \<notin> set (t1 c)" "k \<notin> set (b1 c)" "k \<notin> set (b2 c)"
    by (auto simp: arc_inv_def)
  show ?thesis
  proof (cases "IsExpired item now")
    case False
    show ?thesis
      using inv True it nk False
      by (auto simp: arc_getValue_t2_def al_Has_def al_Remove_def al_MoveToFront_def al_Len_def
          arc_inv_def same_config_def call_upd int_length_remove1 arc_extra_def isCacheFull_def Let_def)
  next
    case exp: True
    show ?thesis
      using inv True it nk exp
      by (auto simp: arc_getValue_t2_def al_Has_def al_Remove_def al_PushFront_def al_Len_def
          arc_inv_def same_config_def same_stats_def call_upd int_length_remove1 Let_def
          keys_delete distinct_delete set_delete)
  qed
qed

lemma arc_getValue_ok:
  fixes c :: "('k, 'v) arcCache"
  assumes inv: "arc_inv c"
  shows "\<exists>r c'. arc_getValue k onLoad now c = Some (r, c') \<and> arc_inv c' \<and> same_config c c' \<and>
           set (arc_items c') \<subseteq> set (arc_items c) \<and>
           (case r of
              Inr v \<Rightarrow>
                (arc_extra c \<longrightarrow> arc_extra c') \<and>
                (\<exists>item. map_of (arc_items c) k = Some item \<and> \<not> IsExpired item now \<and> v = item_value item) \<and>
                hitCount c' = hitCount c + (if onLoad then 0 else 1) \<and> missCount c' = missCount c
            | Inl e \<Rightarrow>
                e = ErrKeyNotFound \<and>
                (\<forall>item. map_of (arc_items c) k = Some item \<longrightarrow> IsExpired item now) \<and>
                (map_of (arc_items c) k = None \<longrightarrow> arc_extra c \<longrightarrow> arc_extra c') \<and>
                missCount c' = missCount c + (if onLoad then 0 else 1) \<and> hitCount c' = hitCount c)"
proof -
  from arc_getValue_t1_ok[OF inv, of k onLoad now] obtain r1 where
    r1: "arc_getValue_t1 k onLoad now c = Some r1" and p1: "case r1 of
              Inl (v, c') \<Rightarrow> arc_inv c' \<and> same_config c c' \<and> set (arc_items c') \<subseteq> set (arc_items c) \<and>
                 (arc_extra c \<longrightarrow> arc_extra c') \<and>
                 (\<exists>item. map_of (arc_items c) k = Some item \<and> \<not> IsExpired item now \<and> v = item_value item) \<and>
                 hitCount c' = hitCount c + (if onLoad then 0 else 1) \<and> missCount c' = missCount c
            | Inr c' \<Rightarrow> arc_inv c' \<and> same_config c c' \<and> same_stats c c' \<and>
                 set (arc_items c') \<subseteq> set (arc_items c) \<and> k \<notin> set (t1 c') \<and>
                 (k \<in> set (t2 c') \<longleftrightarrow> k \<notin> set (t1 c) \<and> k \<in> set (t2 c)) \<and>
                 (k \<in> set (t1 c) \<longrightarrow> (\<exists>item. map_of (arc_items c) k = Some item \<and> IsExpired item now)) \<and>
                 (k \<notin> set (t1 c) \<longrightarrow> c' = c)"
    by blast
  show ?thesis
  proof (cases r1)
    case (Inl p)
    obtain v c' where "p = (v, c')" by (cases p)
    with Inl r1 p1 show ?thesis by (auto simp: arc_getValue_def)
  next
    case (Inr c1)
    with p1 have i1: "arc_inv c1" and s1: "same_config c c1" "same_stats c c1"
      "set (arc_items c1) \<subseteq> set (arc_items c)"
      and t1c: "k \<in> set (t1 c) \<longrightarrow> (\<exists>item. map_of (arc_items c) k = Some item \<and> IsExpired item now)"
      and same: "k \<notin> set (t1 c) \<longrightarrow> c1 = c"
      and t2c: "k \<in> set (t2 c1) \<longleftrightarrow> k \<notin> set (t1 c) \<and> k \<in> set (t2 c)"
      by simp_all
    from arc_getValue_t2_ok[OF i1, of k onLoad now] obtain r2 where
      r2: "arc_getValue_t2 k onLoad now c1 = Some r2" and p2: "case r2 of
              Inl (v, c') \<Rightarrow> arc_inv c' \<and> same_config c1 c' \<and> set (arc_items c') \<subseteq> set (arc_items c1) \<and>
                 (arc_extra c1 \<longrightarrow> arc_extra c') \<and>
                 (\<exists>item. map_of (arc_items c1) k = Some item \<and> \<not> IsExpired item now \<and> v = item_value item) \<and>
                 hitCount c' = hitCount c1 + (if onLoad then 0 else 1) \<and> missCount c' = missCount c1
            | Inr c' \<Rightarrow> arc_inv c' \<and> same_config c1 c' \<and> same_stats c1 c' \<and>
                 set (arc_items c') \<subseteq> set (arc_items c1) \<and>
                 (k \<in> set (t2 c1) \<longrightarrow> (\<exists>item. map_of (arc_items c1) k = Some item \<and> IsExpired item now)) \<and>
                 (k \<notin> set (t2 c1) \<longrightarrow> c' = c1)"
      by blast
    show ?thesis
    proof (cases r2)
      case (Inl p)
      obtain v c' where p: "p = (v, c')" by (cases p)
      with Inl p2 have "k \<in> set (t2 c1)"
        using r2 by (auto simp: arc_getValue_t2_def al_Has_def split: if_splits)
      with t2c same have "c1 = c" by simp
      with Inl p r1 r2 Inr p2 show ?thesis by (auto simp: arc_getValue_def)
    next
      case (Inr c2)
      with p2 have i2: "arc_inv c2" and s2: "same_config c1 c2" "same_stats c1 c2"
        "set (arc_items c2) \<subseteq> set (arc_items c1)"
        and e2: "k \<in> set (t2 c1) \<longrightarrow> (\<exists>item. map_of (arc_items c1) k = Some item \<and> IsExpired item now)"
        and same2: "k \<notin> set (t2 c1) \<longrightarrow> c2 = c1"
        by simp_all
      define c3 where "c3 = (if \<not> onLoad then IncrMissCount c2 else c2)"
      have res: "arc_getValue k onLoad now c = Some (Inl ErrKeyNotFound, c3)"
        using r1 \<open>r1 = Inr c1\<close> r2 Inr by (simp add: arc_getValue_def c3_def)
      have i3: "arc_inv c3" using i2 by (simp add: c3_def arc_inv_def call_upd al_Len_def)
      have cfg: "same_config c c3" using s1 s2 by (simp add: c3_def same_config_def call_upd)
      have its: "set (arc_items c3) \<subseteq> set (arc_items c)" using s1 s2 by (auto simp: c3_def call_upd)
      have st: "missCount c3 = missCount c + (if onLoad then 0 else 1)" "hitCount c3 = hitCount c"
        using s1 s2 by (simp_all add: c3_def same_stats_def call_upd)
      have expd: "IsExpired item now" if "map_of (arc_items c) k = Some item" for item
      proof (cases "k \<in> set (t1 c)")
        case True
        with t1c that show ?thesis by auto
      next
        case False
        with same have "c1 = c" by simp
        from that have "(k, item) \<in> set (arc_items c)" by (rule map_of_SomeD)
        then have "k \<in> fst ` set (arc_items c)" by force
        with inv have "k \<in> set (t1 c @ t2 c)" by (simp add: arc_inv_def)
        with False \<open>c1 = c\<close> e2 that show ?thesis by auto
      qed
      have ext: "arc_extra c3" if "map_of (arc_items c) k = None" "arc_extra c"
      proof -
        from that(1) inv have "k \<notin> set (t1 c @ t2 c)"
          by (auto simp: arc_inv_def map_of_eq_None_iff)
        with same same2 t2c have "c2 = c" by auto
        with that(2) show ?thesis by (simp add: c3_def arc_extra_def isCacheFull_def call_upd)
      qed
      show ?thesis using res i3 cfg its st expd ext by simp
    qed
  qed
qed

lemma arc_get_ok:
  fixes c :: "('k, 'v) arcCache"
  assumes inv: "arc_inv c"
  shows "\<exists>r c'. arc_get k onLoad now c = Some (r, c') \<and> arc_inv c' \<and> same_config c c' \<and>
           set (arc_items c') \<subseteq> set (arc_items c) \<and>
           (list_all (\<lambda>(k, item). item_expiration item = None) (arc_items c) \<longrightarrow>
              arc_extra c \<longrightarrow> arc_extra c')"
proof -
  from arc_getValue_ok[OF inv, of k onLoad now] obtain r c' where
    g: "arc_getValue k onLoad now c = Some (r, c')" "arc_inv c'" "same_config c c'"
      "set (arc_items c') \<subseteq> set (arc_items c)"
    and p0: "case r of
              Inr v \<Rightarrow>
                (arc_extra c \<longrightarrow> arc_extra c') \<and>
                (\<exists>item. map_of (arc_items c) k = Some item \<and> \<not> IsExpired item now \<and> v = item_value item) \<and>
                hitCount c' = hitCount c + (if onLoad then 0 else 1) \<and> missCount c' = missCount c
            | Inl e \<Rightarrow>
                e = ErrKeyNotFound \<and>
                (\<forall>item. map_of (arc_items c) k = Some item \<longrightarrow> IsExpired item now) \<and>
                (map_of (arc_items c) k = None \<longrightarrow> arc_extra c \<longrightarrow> arc_extra c') \<and>
                missCount c' = missCount c + (if onLoad then 0 else 1) \<and> hitCount c' = hitCount c"
    by blast
  have p: "case r of
              Inr v \<Rightarrow> (arc_extra c \<longrightarrow> arc_extra c')
            | Inl e \<Rightarrow> (\<forall>item. map_of (arc_items c) k = Some item \<longrightarrow> IsExpired item now) \<and>
                (map_of (arc_items c) k = None \<longrightarrow> arc_extra c \<longrightarrow> arc_extra c')"
    using p0 by (cases r) simp_all
  have "arc_extra c'"
    if ne: "list_all (\<lambda>(k, item). item_expiration item = None) (arc_items c)" and ex: "arc_extra c"
  proof (cases r)
    case (Inr v)
    with p ex show ?thesis by simp
  next
    case (Inl e)
    have "map_of (arc_items c) k = None"
    proof (cases "map_of (arc_items c) k")
      case (Some item)
      with ne have "item_expiration item = None" by (auto simp: list_all_iff dest!: map_of_SomeD)
      then have "\<not> IsExpired item now" by (simp add: IsExpired_def)
      with p Inl Some show ?thesis by simp
    qed simp
    with p Inl ex show ?thesis by simp
  qed
  with g show ?thesis by (cases r) (auto simp: arc_get_def)
qed

lemma arc_remove_ok:
  fixes c :: "('k, 'v) arcCache"
  assumes inv: "arc_inv c"
  shows "\<exists>b c'. arc_remove k c = Some (b, c') \<and> arc_inv c' \<and> same_config c c' \<and> same_stats c c' \<and>
           (b \<longleftrightarrow> k \<in> fst ` set (arc_items c)) \<and> k \<notin> set (t1 c' @ t2 c') \<and>
           (b \<longrightarrow> k \<in> set (b1 c' @ b2 c'))"
proof -
  consider (a) "k \<in> set (t1 c)" | (b) "k \<notin> set (t1 c)" "k \<in> set (t2 c)" | (c) "k \<notin> set (t1 c @ t2 c)"
    by auto
  then show ?thesis
  proof cases
    case a
    with arc_inv_item[OF inv, of k] obtain item where it: "map_of (arc_items c) k = Some item" by auto
    from inv a have nk: "k \<notin> set (t2 c)" "k \<notin> set (b1 c)" "k \<notin> set (b2 c)"
      by (auto simp: arc_inv_def)
    show ?thesis using inv a it nk
      by (auto simp: arc_remove_def al_Has_def al_Remove_def al_PushFront_def al_Len_def
          arc_inv_def same_config_def same_stats_def call_upd int_length_remove1 Let_def
          keys_delete distinct_delete)
  next
    case b
    with arc_inv_item[OF inv, of k] obtain item where it: "map_of (arc_items c) k = Some item" by auto
    from inv b have nk: "k \<notin> set (b1 c)" "k \<notin> set (b2 c)"
      by (auto simp: arc_inv_def)
    show ?thesis using inv b it nk
      by (auto simp: arc_remove_def al_Has_def al_Remove_def al_PushFront_def al_Len_def
          arc_inv_def same_config_def same_stats_def call_upd int_length_remove1 Let_def
          keys_delete distinct_delete)
  next
    case c
    with inv show ?thesis
      by (auto simp: arc_remove_def al_Has_def arc_inv_def)
  qed
qed

lemma arc_Purge_ok:
  "arc_inv c \<Longrightarrow> arc_inv (arc_Purge c) \<and> arc_extra (arc_Purge c) \<and> same_config c (arc_Purge c) \<and>
     same_stats c (arc_Purge c) \<and> arc_items (arc_Purge c) = []"
  by (auto simp: arc_Purge_def arc_init_def arc_inv_def arc_extra_def same_config_def same_stats_def
      call_upd al_Len_def isCacheFull_def)

lemma arc_set_expiration_ok:
  "arc_inv c \<Longrightarrow> arc_inv (c\<lparr>arc_items := set_item_expiration k t (arc_items c)\<rparr>)"
  by (simp add: arc_inv_def)

lemma lfu_apply_op_inv:
  fixes c :: "('k, 'v) lfuCache"
  assumes "lfu_inv c"
  shows "\<exists>c'. apply_op lfu_cache x c = Some c' \<and> lfu_inv c'"
proof (rule apply_op_preserves[where P = lfu_inv and E = True])
  show "\<exists>r. cache_set lfu_cache k v now c = Some r \<and> (\<forall>c'. r = Inr c' \<longrightarrow> lfu_inv c')"
    if "lfu_inv c" for k v now and c :: "('k, 'v) lfuCache"
  proof -
    from lfu_set_inv[OF that, of k v now] obtain r where
      "lfu_set k v now c = Some r" "case r of Inl e \<Rightarrow> True | Inr c' \<Rightarrow> lfu_inv c'"
      by (fastforce split: sum.splits)
    then show ?thesis by (cases r) (auto simp: lfu_cache_def)
  qed
  show "\<exists>r c'. cache_get lfu_cache k onLoad now c = Some (r, c') \<and> lfu_inv c'"
    if "lfu_inv c" for k onLoad now and c :: "('k, 'v) lfuCache"
    using lfu_get_inv[OF that, of k onLoad now] by (auto simp: lfu_cache_def)
  show "lfu_inv (cache_set_expiration lfu_cache k t c)"
    if "lfu_inv c" for k t and c :: "('k, 'v) lfuCache"
    using that by (simp add: lfu_cache_def lfu_set_expiration_inv)
  show "\<exists>b c'. cache_Remove lfu_cache k c = Some (b, c') \<and> lfu_inv c'"
    if "lfu_inv c" for k and c :: "('k, 'v) lfuCache"
    using lfu_remove_inv[OF that, of k] by (cases "lfu_remove k c") (auto simp: lfu_cache_def lfu_Remove_def)
  show "lfu_inv (cache_Purge lfu_cache c)" for c :: "('k, 'v) lfuCache"
    by (simp add: lfu_cache_def lfu_Purge_inv)
qed (use assms in simp_all)

lemma lfu_apply_op_bounded:
  fixes c :: "('k, 'v) lfuCache"
  assumes "lfu_bounded n c"
  shows "\<exists>c'. apply_op lfu_cache x c = Some c' \<and> lfu_bounded n c'"
proof (rule apply_op_preserves[where P = "lfu_bounded n" and E = True])
  show "\<exists>r. cache_set lfu_cache k v now c = Some r \<and> (\<forall>c'. r = Inr c' \<longrightarrow> lfu_bounded n c')"
    if "lfu_bounded n c" for k v now and c :: "('k, 'v) lfuCache"
  proof -
    from that have inv: "lfu_inv c" and b: "0 < csize c" "int (length (lfu_items c)) \<le> csize c" "csize c = n"
      by (simp_all add: lfu_bounded_def)
    from lfu_set_inv[OF inv, of k v now] b obtain r where
      "lfu_set k v now c = Some r"
      "case r of Inl e \<Rightarrow> True | Inr c' \<Rightarrow> lfu_inv c' \<and> csize c' = csize c \<and> int (length (lfu_items c')) \<le> csize c"
      by (fastforce split: sum.splits)
    with b show ?thesis by (cases r) (auto simp: lfu_cache_def lfu_bounded_def)
  qed
  show "\<exists>r c'. cache_get lfu_cache k onLoad now c = Some (r, c') \<and> lfu_bounded n c'"
    if "lfu_bounded n c" for k onLoad now and c :: "('k, 'v) lfuCache"
    using lfu_get_inv[of c k onLoad now] that by (fastforce simp: lfu_cache_def lfu_bounded_def)
  show "lfu_bounded n (cache_set_expiration lfu_cache k t c)"
    if "lfu_bounded n c" for k t and c :: "('k, 'v) lfuCache"
    using that by (simp add: lfu_cache_def lfu_set_expiration_inv lfu_bounded_def)
  show "\<exists>b c'. cache_Remove lfu_cache k c = Some (b, c') \<and> lfu_bounded n c'"
    if "lfu_bounded n c" for k and c :: "('k, 'v) lfuCache"
    using lfu_remove_inv[of c k] that
    by (cases "lfu_remove k c") (auto simp: lfu_cache_def lfu_Remove_def lfu_bounded_def)
  show "lfu_bounded n (cache_Purge lfu_cache c)" if "lfu_bounded n c" for c :: "('k, 'v) lfuCache"
    using that by (simp add: lfu_cache_def lfu_Purge_inv lfu_Purge_fields lfu_bounded_def)
qed (use assms in simp_all)

lemma newLFUCache_fields:
  "csize (newLFUCache cb) = b_size cb" "lfu_items (newLFUCache cb) = []"
  "freqList (newLFUCache cb) = [\<lparr>freq = 0, fe_items = []\<rparr>]"
  "expiration (newLFUCache cb) = b_expiration cb"
  "loaderExpireFunc (newLFUCache cb) = b_loaderExpireFunc cb"
  "hitCount (newLFUCache cb) = 0" "missCount (newLFUCache cb) = 0" "events (newLFUCache cb) = []"
  by (simp_all add: newLFUCache_def lfu_init_def buildCache_def baseCache.extend_def lfuCache.fields_def)

lemma newLFUCache_inv: "lfu_inv (newLFUCache cb)"
  by (simp add: newLFUCache_def lfu_inv_init)

lemma lfu_run_inv: "\<exists>c. run lfu_cache ops (newLFUCache cb) = Some c \<and> lfu_inv c"
proof (rule run_preserves[where Q = "\<lambda>x. True" and P = lfu_inv])
  show "list_all (\<lambda>x. True) ops" by (simp add: list_all_iff)
  show "lfu_inv (newLFUCache cb)" by (rule newLFUCache_inv)
qed (rule lfu_apply_op_inv)

lemma lfu_run_bounded:
  "0 < b_size cb \<Longrightarrow> \<exists>c. run lfu_cache ops (newLFUCache cb) = Some c \<and> lfu_bounded (b_size cb) c"
proof (rule run_preserves[where Q = "\<lambda>x. True" and P = "lfu_bounded (b_size cb)"])
  assume "0 < b_size cb"
  then show "lfu_bounded (b_size cb) (newLFUCache cb)"
    by (simp add: lfu_bounded_def newLFUCache_inv newLFUCache_fields)
  show "list_all (\<lambda>x. True) ops" by (simp add: list_all_iff)
qed (rule lfu_apply_op_bounded)

lemma arc_apply_op_sized:
  fixes c :: "('k, 'v) arcCache"
  assumes "arc_sized n c"
  shows "\<exists>c'. apply_op arc_cache x c = Some c' \<and> arc_sized n c'"
proof (rule apply_op_preserves[where P = "arc_sized n" and E = True])
  show "\<exists>r. cache_set arc_cache k v now c = Some r \<and> (\<forall>c'. r = Inr c' \<longrightarrow> arc_sized n c')"
    if "arc_sized n c" for k v now and c :: "('k, 'v) arcCache"
    using arc_set_ok[of c k v now] that by (auto simp: arc_cache_def arc_sized_def same_config_def)
  show "\<exists>r c'. cache_get arc_cache k onLoad now c = Some (r, c') \<and> arc_sized n c'"
    if "arc_sized n c" for k onLoad now and c :: "('k, 'v) arcCache"
    using arc_get_ok[of c k onLoad now] that by (fastforce simp: arc_cache_def arc_sized_def same_config_def)
  show "arc_sized n (cache_set_expiration arc_cache k t c)"
    if "arc_sized n c" for k t and c :: "('k, 'v) arcCache"
    using that arc_set_expiration_ok[of c k t] by (simp add: arc_cache_def arc_sized_def)
  show "\<exists>b c'. cache_Remove arc_cache k c = Some (b, c') \<and> arc_sized n c'"
    if "arc_sized n c" for k and c :: "('k, 'v) arcCache"
    using arc_remove_ok[of c k] that
    by (fastforce simp: arc_cache_def arc_Remove_def arc_sized_def same_config_def)
  show "arc_sized n (cache_Purge arc_cache c)" if "arc_sized n c" for c :: "('k, 'v) arcCache"
    using that arc_Purge_ok[of c] by (simp add: arc_cache_def arc_sized_def same_config_def)
qed (use assms in simp_all)

lemma arc_inv_noexp_alt:
  "arc_inv_noexp c \<longleftrightarrow>
     arc_inv c \<and> expiration c = None \<and> loader_without_ttl c \<and>
     list_all (\<lambda>(k, item). item_expiration item = None) (arc_items c) \<and> arc_extra c"
  by (auto simp: arc_inv_noexp_def arc_extra_def)

lemma loader_without_ttl_cong:
  "same_config c c' \<Longrightarrow> loader_without_ttl c' = loader_without_ttl c"
  by (simp add: same_config_def loader_without_ttl_def)

lemma arc_apply_op_sized_noexp:
  fixes c :: "('k, 'v) arcCache"
  assumes "arc_sized_noexp n c" and "op_noexp x"
  shows "\<exists>c'. apply_op arc_cache x c = Some c' \<and> arc_sized_noexp n c'"
proof (rule apply_op_preserves[where P = "arc_sized_noexp n" and E = False])
  show "\<exists>r. cache_set arc_cache k v now c = Some r \<and> (\<forall>c'. r = Inr c' \<longrightarrow> arc_sized_noexp n c')"
    if "arc_sized_noexp n c" for k v now and c :: "('k, 'v) arcCache"
  proof -
    from that have inv: "arc_inv c" by (simp add: arc_sized_noexp_def arc_inv_noexp_alt)
    from arc_set_ok[OF inv, of k v now] that show ?thesis
      by (auto simp: arc_cache_def arc_sized_noexp_def arc_inv_noexp_alt loader_without_ttl_cong)
         (simp_all add: same_config_def)
  qed
  show "\<exists>r c'. cache_get arc_cache k onLoad now c = Some (r, c') \<and> arc_sized_noexp n c'"
    if "arc_sized_noexp n c" for k onLoad now and c :: "('k, 'v) arcCache"
  proof -
    from that have inv: "arc_inv c" by (simp add: arc_sized_noexp_def arc_inv_noexp_alt)
    from arc_get_ok[OF inv, of k onLoad now] obtain r c' where
      g: "arc_get k onLoad now c = Some (r, c')" "arc_inv c'" "same_config c c'"
        "set (arc_items c') \<subseteq> set (arc_items c)"
        "list_all (\<lambda>(k, item). item_expiration item = None) (arc_items c) \<longrightarrow> arc_extra c \<longrightarrow> arc_extra c'"
      by blast
    from g(4) that have "list_all (\<lambda>(k, item). item_expiration item = None) (arc_items c')"
      by (auto simp: arc_sized_noexp_def arc_inv_noexp_alt list_all_iff)
    with g that show ?thesis
      by (auto simp: arc_cache_def arc_sized_noexp_def arc_inv_noexp_alt loader_without_ttl_cong)
         (simp_all add: same_config_def)
  qed
  show "arc_sized_noexp n (cache_Purge arc_cache c)" if "arc_sized_noexp n c" for c :: "('k, 'v) arcCache"
    using that arc_Purge_ok[of c]
    by (auto simp: arc_cache_def arc_sized_noexp_def arc_inv_noexp_alt loader_without_ttl_cong)
       (simp_all add: same_config_def)
  show "fst (snd (f k)) = None"
    if "arc_sized_noexp n c" "cache_loader arc_cache c = Some f" for f k and c :: "('k, 'v) arcCache"
    using that by (auto simp: arc_cache_def arc_sized_noexp_def arc_inv_noexp_alt loader_without_ttl_def)
qed (use assms in simp_all)

lemma newARC_fields:
  "csize (newARC cb) = b_size cb" "arc_items (newARC cb) = []" "part (newARC cb) = 0"
  "t1 (newARC cb) = []" "t2 (newARC cb) = []" "b1 (newARC cb) = []" "b2 (newARC cb) = []"
  "expiration (newARC cb) = b_expiration cb"
  "loaderExpireFunc (newARC cb) = b_loaderExpireFunc cb"
  "hitCount (newARC cb) = 0" "missCount (newARC cb) = 0" "events (newARC cb) = []"
  by (simp_all add: newARC_def arc_init_def buildCache_def baseCache.extend_def arcCache.fields_def)

lemma arc_run_sized:
  "0 < b_size cb \<Longrightarrow> \<exists>c. run arc_cache ops (newARC cb) = Some c \<and> arc_sized (b_size cb) c"
proof (rule run_preserves[where Q = "\<lambda>x. True" and P = "arc_sized (b_size cb)"])
  assume "0 < b_size cb"
  then show "arc_sized (b_size cb) (newARC cb)"
    by (simp add: arc_sized_def arc_inv_def newARC_fields al_Len_def)
  show "list_all (\<lambda>x. True) ops" by (simp add: list_all_iff)
qed (rule arc_apply_op_sized)

lemma arc_run_sized_noexp:
  assumes "0 < b_size cb" and "b_expiration cb = None"
    and "case b_loaderExpireFunc cb of None \<Rightarrow> True | Some f \<Rightarrow> \<forall>key. fst (snd (f key)) = None"
    and "list_all op_noexp ops"
  shows "\<exists>c. run arc_cache ops (newARC cb) = Some c \<and> arc_sized_noexp (b_size cb) c"
proof (rule run_preserves[where Q = op_noexp and P = "arc_sized_noexp (b_size cb)"])
  show "arc_sized_noexp (b_size cb) (newARC cb)"
    using assms(1-3)
    by (simp add: arc_sized_noexp_def arc_inv_noexp_def arc_inv_def newARC_fields al_Len_def
        loader_without_ttl_def isCacheFull_def)
  show "list_all op_noexp ops" by (rule assms(4))
qed (rule arc_apply_op_sized_noexp)


lemma evict_scan_done: "count \<le> current \<Longrightarrow> evict_scan al current count now = []"
  by (cases al) auto

lemma evict_scan_one:
  "evict_scan al 0 1 now =
     (case find (\<lambda>(k, item). evictable item now) al of None \<Rightarrow> [] | Some (k, item) \<Rightarrow> [k])"
  by (induction al) (auto simp: evict_scan_done)

lemma simple_evict_one:
  "simple_evict 1 now c =
     (case find (\<lambda>(k, item). evictable item now) (items c) of
        None \<Rightarrow> c | Some (k, item) \<Rightarrow> snd (simple_remove k c))"
  by (simp add: simple_evict_def evict_scan_one split: option.splits)

lemma find_None_list_ex: "find P xs = None \<longleftrightarrow> \<not> list_ex P xs"
  by (auto simp: find_None_iff list_ex_iff)

lemma simple_set_fresh_length:
  fixes s :: "('k, 'v) SimpleCache"
  assumes dist: "distinct (map fst (items s))" and new: "map_of (items s) key = None"
    and full: "0 < csize s" "csize s \<le> int (length (items s))"
  shows "case simple_set key v now s of
           Inl e \<Rightarrow> serialize s key v = Inl e
         | Inr s' \<Rightarrow>
             int (length (items s')) =
               int (length (items s)) +
                 (if list_ex (\<lambda>(k, item). evictable item now) (items s) then 0 else 1)"
proof (cases "serialize s key v")
  case (Inl e)
  then show ?thesis by (simp add: simple_set_def)
next
  case (Inr w)
  define s0 where "s0 = simple_evict 1 now s"
  have new0: "map_of (items s0) key = None"
    using new
    by (auto simp: s0_def simple_evict_one simple_remove_def call_upd map_of_eq_None_iff keys_delete
        split: option.splits)
  have len0: "int (length (items s0)) =
      int (length (items s)) - (if list_ex (\<lambda>(k, item). evictable item now) (items s) then 1 else 0)"
  proof (cases "find (\<lambda>(k, item). evictable item now) (items s)")
    case None
    moreover from None have "\<not> list_ex (\<lambda>(k, item). evictable item now) (items s)"
      by (simp add: find_None_list_ex)
    ultimately show ?thesis by (simp add: s0_def simple_evict_one)
  next
    case (Some p)
    obtain k0 it0 where p: "p = (k0, it0)" by (cases p)
    from Some p have mem: "(k0, it0) \<in> set (items s)" and ev: "evictable it0 now"
      by (auto simp: find_Some_iff in_set_conv_nth)
    then have ex: "list_ex (\<lambda>(k, item). evictable item now) (items s)" by (auto simp: list_ex_iff)
    from mem dist have mo: "map_of (items s) k0 = Some it0" by simp
    from mem have "k0 \<in> fst ` set (items s)" by force
    from length_delete_distinct[OF dist this] have "int (length (AList.delete k0 (items s))) = int (length (items s)) - 1"
      by simp
    with Some p mo ex show ?thesis
      by (simp add: s0_def simple_evict_one simple_remove_def call_upd)
  qed
  have "simple_set key v now s = Inr (call_added key w
          (case expiration s0 of None \<Rightarrow> s0\<lparr>items := AList.update key \<lparr>item_value = w, item_expiration = None\<rparr> (items s0)\<rparr>
           | Some d \<Rightarrow> s0\<lparr>items := set_item_expiration key (now + d)
                 (AList.update key \<lparr>item_value = w, item_expiration = None\<rparr> (items s0))\<rparr>))"
    using Inr new full by (simp add: simple_set_def s0_def Let_def split: option.splits)
  then show ?thesis
    using len0 by (auto simp: call_upd length_update_new[OF new0] split: option.splits if_splits)
qed


lemma lfu_Len_le:
  "lfu_Len True now c \<le> lfu_Len False now c" "lfu_Len False now c = int (length (lfu_items c))"
  using length_filter_le[of "\<lambda>k. has_item (lfu_items c) k now" "map fst (lfu_items c)"]
  by (simp_all add: lfu_Len_def)

lemma arc_Len_le:
  "arc_Len True now c \<le> arc_Len False now c" "arc_Len False now c = int (length (arc_items c))"
  using length_filter_le[of "\<lambda>k. has_item (arc_items c) k now" "map fst (arc_items c)"]
  by (simp_all add: arc_Len_def)

lemma arc_inv_length_items:
  assumes "arc_inv c"
  shows "length (arc_items c) = length (t1 c) + length (t2 c)"
proof -
  from assms have d1: "distinct (map fst (arc_items c))" and d2: "distinct (t1 c @ t2 c)"
    and s: "set (map fst (arc_items c)) = set (t1 c @ t2 c)"
    by (auto simp: arc_inv_def)
  have "length (map fst (arc_items c)) = card (set (map fst (arc_items c)))"
    using d1 by (rule distinct_card[symmetric])
  also have "\<dots> = card (set (t1 c @ t2 c))" by (simp only: s)
  also have "\<dots> = length (t1 c @ t2 c)" using d2 by (rule distinct_card)
  finally show ?thesis by simp
qed

lemma lfu_inv_freq:
  "lfu_inv c \<Longrightarrow> i < length (freqList c) \<Longrightarrow> freq (freqList c ! i) = of_nat i"
  unfolding lfu_inv_iff by blast

lemma lfu_inv_unat:
  assumes inv: "lfu_inv c" and len: "length (freqList c) \<le> 2 ^ 64"
  shows "map (\<lambda>fe. unat (freq fe)) (freqList c) = [0..<length (freqList c)]"
proof (rule nth_equalityI)
  show "length (map (\<lambda>fe. unat (freq fe)) (freqList c)) = length [0..<length (freqList c)]" by simp
next
  fix i assume "i < length (map (\<lambda>fe. unat (freq fe)) (freqList c))"
  then have i: "i < length (freqList c)" by simp
  with len have "i < 2 ^ 64" by simp
  then have "unat (of_nat i :: 64 word) = i" by (simp add: unat_of_nat)
  with i lfu_inv_freq[OF inv i]
  show "map (\<lambda>fe. unat (freq fe)) (freqList c) ! i = [0..<length (freqList c)] ! i" by simp
qed

lemma lfu_increment_next:
  fixes c :: "('k, 'v) lfuCache"
  assumes inv: "lfu_inv c" and mo: "map_of (lfu_items c) key = Some item"
  shows "case lfu_increment key item c of
           None \<Rightarrow> False
         | Some c' \<Rightarrow>
             (case map_of (lfu_items c') key of
                None \<Rightarrow> False
              | Some item' \<Rightarrow>
                  freqElement item' < length (freqList c') \<and>
                  key \<in> set (fe_items (freqList c' ! freqElement item')) \<and>
                  freq (freqList c' ! freqElement item') = freq (freqList c ! freqElement item) + 1)"
proof -
  from mo have mem: "(key, item) \<in> set (lfu_items c)" by (rule map_of_SomeD)
  from lfu_increment_inv[OF inv mem] obtain c' where
    r: "lfu_increment key item c = Some c'" and inv': "lfu_inv c'"
    and its: "lfu_items c' = AList.update key (item\<lparr>freqElement := Suc (freqElement item)\<rparr>) (lfu_items c)"
    and lt: "Suc (freqElement item) < length (freqList c')"
    by blast
  let ?item' = "item\<lparr>freqElement := Suc (freqElement item)\<rparr>"
  have mo': "map_of (lfu_items c') key = Some ?item'" by (simp add: its update_conv')
  then have "(key, ?item') \<in> set (lfu_items c')" by (rule map_of_SomeD)
  with inv' have b: "key \<in> set (fe_items (freqList c' ! freqElement ?item'))"
    unfolding lfu_inv_iff by blast
  from inv mem have "freqElement item < length (freqList c)" unfolding lfu_inv_iff by blast
  from lfu_inv_freq[OF inv this] lfu_inv_freq[OF inv' lt]
  have "freq (freqList c' ! Suc (freqElement item)) = freq (freqList c ! freqElement item) + 1"
    by simp
  with r mo' lt b show ?thesis by simp
qed

lemma map_of_delete_same [simp]: "map_of (AList.delete k al) k = None"
  by (simp add: delete_conv')

subsection \<open>Reads of an expired entry\<close>

lemma has_item_expiration:
  "map_of al key = Some item \<Longrightarrow> item_expiration item = Some e \<Longrightarrow>
     has_item al key now \<longleftrightarrow> now \<le> e"
  by (auto simp: has_item_def IsExpired_def)

lemma expired_reads:
  assumes mo: "map_of al key = Some item" and ex: "item_expiration item = Some e" "e < now"
  shows "\<not> has_item al key now"
    "key \<notin> set (filter (\<lambda>k. \<not> True \<or> has_item al k now) (map fst al))"
    "key \<notin> fst ` set (map (\<lambda>(k, item). (k, item_value item))
                     (filter (\<lambda>(k, item). \<not> True \<or> has_item al k now) al))"
    "int (length (filter (\<lambda>k. has_item al k now) (map fst al))) < int (length al)"
proof -
  show h: "\<not> has_item al key now" using has_item_expiration[OF mo ex(1), of now] ex(2) by simp
  then show "key \<notin> set (filter (\<lambda>k. \<not> True \<or> has_item al k now) (map fst al))" by simp
  from h show "key \<notin> fst ` set (map (\<lambda>(k, item). (k, item_value item))
                     (filter (\<lambda>(k, item). \<not> True \<or> has_item al k now) al))"
    by (auto simp: image_iff)
  from mo have "key \<in> set (map fst al)" by (force dest!: map_of_SomeD simp: image_iff)
  from length_filter_less[OF this, of "\<lambda>k. has_item al k now"] h
  show "int (length (filter (\<lambda>k. has_item al k now) (map fst al))) < int (length al)" by simp
qed

lemma simple_get_expired:
  assumes "map_of (items s) key = Some item" and "IsExpired item now"
  shows "simple_get key onLoad now s =
     ((None, Some ErrKeyNotFound),
      (if onLoad then (\<lambda>c. c) else IncrMissCount)
        (call_evicted key (item_value item) (s\<lparr>items := AList.delete key (items s)\<rparr>)))"
  using assms by (simp add: simple_get_def simple_getValue_def simple_remove_def Let_def)

lemma lfu_get_expired:
  assumes "map_of (lfu_items l) key = Some item" and "IsExpired item now"
  shows "lfu_get key onLoad now l =
     Some ((None, Some ErrKeyNotFound),
      (if onLoad then (\<lambda>c. c) else IncrMissCount) (lfu_removeItem key item l))"
  using assms by (simp add: lfu_get_def lfu_getValue_def Let_def)

lemma arc_get_expired:
  fixes a :: "('k, 'v) arcCache"
  assumes inv: "arc_inv a" and mo: "map_of (arc_items a) key = Some item"
    and ex: "IsExpired item now"
  shows "\<exists>a'. arc_get key onLoad now a = Some ((None, Some ErrKeyNotFound), a') \<and>
           map_of (arc_items a') key = None \<and>
           events a' = events a @ (if evictedFunc a then [Evicted key (item_value item)] else []) \<and>
           key \<in> set (b1 a' @ b2 a')"
proof -
  from mo have "(key, item) \<in> set (arc_items a)" by (rule map_of_SomeD)
  then have "key \<in> fst ` set (arc_items a)" by force
  with inv have "key \<in> set (t1 a @ t2 a)" by (simp add: arc_inv_def)
  then consider (a) "key \<in> set (t1 a)" | (b) "key \<notin> set (t1 a)" "key \<in> set (t2 a)" by auto
  then show ?thesis
  proof cases
    case a
    with inv have nk: "key \<notin> set (t2 a)" "key \<notin> set (b1 a)" "key \<notin> set (b2 a)"
      by (auto simp: arc_inv_def)
    show ?thesis using a nk mo ex
      by (auto simp: arc_get_def arc_getValue_def arc_getValue_t1_def arc_getValue_t2_def
          al_Has_def al_Remove_def al_PushFront_def call_upd Let_def)
  next
    case b
    with inv have nk: "key \<notin> set (b1 a)" "key \<notin> set (b2 a)" by (auto simp: arc_inv_def)
    show ?thesis using b nk mo ex
      by (auto simp: arc_get_def arc_getValue_def arc_getValue_t1_def arc_getValue_t2_def
          al_Has_def al_Remove_def al_PushFront_def call_upd Let_def)
  qed
qed

subsection \<open>The hit and miss counters\<close>

lemma deserialize_cong:
  "deserializeFunc c' = deserializeFunc c \<Longrightarrow> deserialize c' = deserialize c"
  by (simp add: deserialize_def fun_eq_iff)

lemma simple_set_stats:
  "simple_set k v now c = Inr c' \<Longrightarrow> hitCount c' = hitCount c \<and> missCount c' = missCount c"
  by (auto simp: simple_set_def simple_evict_one simple_remove_def call_upd Let_def
      split: sum.splits option.splits if_splits)

lemma deserialize_IncrHitCount: "deserialize (IncrHitCount c) = deserialize c"
  by (rule deserialize_cong) (simp add: IncrHitCount_def)

lemma simple_get_stats:
  "\<exists>r c'. simple_get k onLoad now c = (r, c') \<and>
     loaderExpireFunc c' = loaderExpireFunc c \<and> deserializeFunc c' = deserializeFunc c \<and>
     (if onLoad then same_stats c c' else counted (has_item (items c) k now) c c') \<and>
     (if has_item (items c) k now then (\<exists>v. r = deserialize c k v)
      else r = (None, Some ErrKeyNotFound))"
proof (cases "map_of (items c) k")
  case None
  then show ?thesis
    by (simp add: simple_get_def simple_getValue_def call_upd has_item_def same_stats_def
        counted_def)
next
  case (Some item)
  show ?thesis
  proof (cases "IsExpired item now")
    case True
    with Some show ?thesis
      by (simp add: simple_get_def simple_getValue_def simple_remove_def call_upd Let_def
          has_item_def same_stats_def counted_def)
  next
    case False
    with Some have "simple_get k onLoad now c =
        (deserialize c k (item_value item), if \<not> onLoad then IncrHitCount c else c)"
      by (simp add: simple_get_def simple_getValue_def deserialize_IncrHitCount)
    with Some False show ?thesis
      by (auto simp: has_item_def same_stats_def counted_def call_upd)
  qed
qed

lemma lfu_increment_config:
  "lfu_increment k item c = Some c' \<Longrightarrow>
     loaderExpireFunc c' = loaderExpireFunc c \<and> deserializeFunc c' = deserializeFunc c"
  by (auto simp: lfu_increment_def Let_def split: if_splits)

lemma lfu_get_stats:
  fixes c :: "('k, 'v) lfuCache"
  assumes inv: "lfu_inv c"
  shows "\<exists>r c'. lfu_get k onLoad now c = Some (r, c') \<and> lfu_inv c' \<and>
     loaderExpireFunc c' = loaderExpireFunc c \<and> deserializeFunc c' = deserializeFunc c \<and>
     (if onLoad then same_stats c c' else counted (has_item (lfu_items c) k now) c c') \<and>
     (if has_item (lfu_items c) k now then (\<exists>v. r = deserialize c k v)
      else r = (None, Some ErrKeyNotFound))"
proof -
  from lfu_get_inv[OF inv, of k onLoad now] obtain r c' where
    g: "lfu_get k onLoad now c = Some (r, c')" and inv': "lfu_inv c'" by blast
  show ?thesis
  proof (cases "map_of (lfu_items c) k")
    case None
    with g inv' show ?thesis
      by (auto simp: lfu_get_def lfu_getValue_def has_item_def same_stats_def counted_def call_upd)
  next
    case (Some item)
    show ?thesis
    proof (cases "IsExpired item now")
      case True
      with Some g inv' show ?thesis
        by (auto simp: lfu_get_def lfu_getValue_def has_item_def same_stats_def counted_def
            call_upd lfu_removeItem_def Let_def)
    next
      case False
      from Some have mem: "(k, item) \<in> set (lfu_items c)" by (rule map_of_SomeD)
      from lfu_increment_inv[OF inv mem] obtain c1 where
        i: "lfu_increment k item c = Some c1" and
        st: "hitCount c1 = hitCount c" "missCount c1 = missCount c" by blast
      from lfu_increment_config[OF i] have cf:
        "loaderExpireFunc c1 = loaderExpireFunc c" "deserializeFunc c1 = deserializeFunc c"
        by simp_all
      from Some False i g have c': "c' = (if \<not> onLoad then IncrHitCount c1 else c1)"
        and r: "r = deserialize c' k (item_value item)"
        by (auto simp: lfu_get_def lfu_getValue_def)
      from c' cf have cf': "loaderExpireFunc c' = loaderExpireFunc c"
        "deserializeFunc c' = deserializeFunc c" by (auto simp: call_upd)
      from r deserialize_cong[OF cf'(2)] have r': "r = deserialize c k (item_value item)" by simp
      from c' st have "if onLoad then same_stats c c' else counted True c c'"
        by (auto simp: same_stats_def counted_def call_upd)
      with Some False g inv' cf' r' show ?thesis by (auto simp: has_item_def)
    qed
  qed
qed

lemma arc_get_stats:
  fixes c :: "('k, 'v) arcCache"
  assumes inv: "arc_inv c"
  shows "\<exists>r c'. arc_get k onLoad now c = Some (r, c') \<and> arc_inv c' \<and>
     loaderExpireFunc c' = loaderExpireFunc c \<and> deserializeFunc c' = deserializeFunc c \<and>
     (if onLoad then same_stats c c' else counted (has_item (arc_items c) k now) c c') \<and>
     (if has_item (arc_items c) k now then (\<exists>v. r = deserialize c k v)
      else r = (None, Some ErrKeyNotFound))"
proof -
  from arc_getValue_ok[OF inv, of k onLoad now] obtain r0 c' where
    g: "arc_getValue k onLoad now c = Some (r0, c')" and inv': "arc_inv c'"
    and cf: "same_config c c'"
    and r0: "case r0 of
              Inr v \<Rightarrow>
                (\<exists>item. map_of (arc_items c) k = Some item \<and> \<not> IsExpired item now \<and> v = item_value item) \<and>
                hitCount c' = hitCount c + (if onLoad then 0 else 1) \<and> missCount c' = missCount c
            | Inl e \<Rightarrow>
                e = ErrKeyNotFound \<and>
                (\<forall>item. map_of (arc_items c) k = Some item \<longrightarrow> IsExpired item now) \<and>
                missCount c' = missCount c + (if onLoad then 0 else 1) \<and> hitCount c' = hitCount c"
    by (fastforce split: sum.splits)
  from cf have cf': "loaderExpireFunc c' = loaderExpireFunc c"
    "deserializeFunc c' = deserializeFunc c" by (simp_all add: same_config_def)
  show ?thesis
  proof (cases r0)
    case (Inl e)
    with r0 g inv' cf' show ?thesis
      by (auto simp: arc_get_def has_item_def same_stats_def counted_def split: option.splits)
  next
    case (Inr v)
    with r0 g inv' cf' deserialize_cong[OF cf'(2)] show ?thesis
      by (auto simp: arc_get_def has_item_def same_stats_def counted_def)
  qed
qed

lemma Get_after_lookup:
  assumes g: "cache_get m key False now c = Some (r1, c1)"
    and P: "P c1"
    and set: "\<And>k v now c. P c \<Longrightarrow> \<exists>r. cache_set m k v now c = Some r \<and> (\<forall>c'. r = Inr c' \<longrightarrow> P c')"
    and exp: "\<And>k t c. P c \<Longrightarrow> P (cache_set_expiration m k t c)"
  shows "\<exists>r c'. Get m key now c = Some (r, c') \<and> P c' \<and>
           (snd r1 \<noteq> Some ErrKeyNotFound \<longrightarrow> r = r1) \<and>
           (snd r1 = Some ErrKeyNotFound \<longrightarrow> cache_loader m c1 = None \<longrightarrow>
              r = (None, Some ErrKeyNotFound))"
proof (cases "snd r1 = Some ErrKeyNotFound")
  case True
  have "\<exists>r c'. getWithLoader m key True now c1 = Some (r, c') \<and> P c'"
    apply (rule getWithLoader_preserves[where P = P and E = True])
       apply (erule set)
      apply (erule exp)
     apply simp
    apply (rule P)
    done
  then obtain r c' where w: "getWithLoader m key True now c1 = Some (r, c')" "P c'" by blast
  from g True have "Get m key now c = getWithLoader m key True now c1"
    by (cases r1) (simp add: Get_def)
  with w True show ?thesis by (auto simp: getWithLoader_def)
next
  case False
  with g have "Get m key now c = Some (r1, c1)" by (cases r1) (simp add: Get_def)
  with False P show ?thesis by simp
qed

lemma Get_result_cases:
  assumes "snd r1 \<noteq> Some ErrKeyNotFound \<longrightarrow> r = r1"
    and "snd r1 = Some ErrKeyNotFound \<longrightarrow> ld = None \<longrightarrow> r = (None, Some ErrKeyNotFound)"
    and "if H then (\<exists>v. r1 = deserialize c key v) else r1 = (None, Some ErrKeyNotFound)"
  shows "(ld = None \<and> snd r = None \<longrightarrow> H) \<and>
         (deserializeFunc c = None \<and> snd r = Some ErrKeyNotFound \<longrightarrow> \<not> H)"
  using assms by (auto simp: deserialize_def split: if_splits)

lemma simple_Get_counted:
  fixes s :: "('k, 'v) SimpleCache"
  shows "\<exists>r s'. Get simple_cache key now s = Some (r, s') \<and>
     counted (simple_Existed key now s) s s' \<and>
     (loaderExpireFunc s = None \<and> snd r = None \<longrightarrow> counted True s s') \<and>
     (deserializeFunc s = None \<and> snd r = Some ErrKeyNotFound \<longrightarrow> counted False s s')"
proof -
  from simple_get_stats[of key False now s] obtain r1 c1 where
    g: "simple_get key False now s = (r1, c1)"
    and cf: "loaderExpireFunc c1 = loaderExpireFunc s" "deserializeFunc c1 = deserializeFunc s"
    and st: "counted (has_item (items s) key now) s c1"
    and r1: "if has_item (items s) key now then (\<exists>v. r1 = deserialize s key v)
             else r1 = (None, Some ErrKeyNotFound)"
    by auto
  define P where "P = (\<lambda>x :: ('k, 'v) SimpleCache. hitCount x = hitCount c1 \<and> missCount x = missCount c1)"
  have "\<exists>r c'. Get simple_cache key now s = Some (r, c') \<and> P c' \<and>
           (snd r1 \<noteq> Some ErrKeyNotFound \<longrightarrow> r = r1) \<and>
           (snd r1 = Some ErrKeyNotFound \<longrightarrow> cache_loader simple_cache c1 = None \<longrightarrow>
              r = (None, Some ErrKeyNotFound))"
  proof (rule Get_after_lookup[where P = P])
    show "cache_get simple_cache key False now s = Some (r1, c1)" using g by (simp add: simple_cache_def)
    show "P c1" by (simp add: P_def)
    show "\<exists>r. cache_set simple_cache k v now c = Some r \<and> (\<forall>c'. r = Inr c' \<longrightarrow> P c')" if "P c" for k v now c
      using that simple_set_stats[of k v now c] by (auto simp: simple_cache_def P_def)
    show "P (cache_set_expiration simple_cache k t c)" if "P c" for k t c
      using that by (simp add: simple_cache_def P_def)
  qed
  then obtain r s' where G: "Get simple_cache key now s = Some (r, s')" and P: "P s'"
    and a: "snd r1 \<noteq> Some ErrKeyNotFound \<longrightarrow> r = r1"
    and b: "snd r1 = Some ErrKeyNotFound \<longrightarrow> loaderExpireFunc s = None \<longrightarrow>
              r = (None, Some ErrKeyNotFound)"
    using cf by (auto simp: simple_cache_def)
  from st P have c: "counted (has_item (items s) key now) s s'" by (simp add: counted_def P_def)
  from Get_result_cases[OF a b r1] c G show ?thesis
    by (auto simp: simple_Existed_def)
qed

lemma lfu_Get_counted:
  fixes s :: "('k, 'v) lfuCache"
  assumes inv: "lfu_inv s"
  shows "\<exists>r s'. Get lfu_cache key now s = Some (r, s') \<and>
     counted (lfu_Existed key now s) s s' \<and>
     (loaderExpireFunc s = None \<and> snd r = None \<longrightarrow> counted True s s') \<and>
     (deserializeFunc s = None \<and> snd r = Some ErrKeyNotFound \<longrightarrow> counted False s s')"
proof -
  from lfu_get_stats[OF inv, of key False now] obtain r1 c1 where
    g: "lfu_get key False now s = Some (r1, c1)" and inv1: "lfu_inv c1"
    and cf: "loaderExpireFunc c1 = loaderExpireFunc s" "deserializeFunc c1 = deserializeFunc s"
    and st: "counted (has_item (lfu_items s) key now) s c1"
    and r1: "if has_item (lfu_items s) key now then (\<exists>v. r1 = deserialize s key v)
             else r1 = (None, Some ErrKeyNotFound)"
    by auto
  define P where "P = (\<lambda>x :: ('k, 'v) lfuCache. lfu_inv x \<and> hitCount x = hitCount c1 \<and> missCount x = missCount c1)"
  have "\<exists>r c'. Get lfu_cache key now s = Some (r, c') \<and> P c' \<and>
           (snd r1 \<noteq> Some ErrKeyNotFound \<longrightarrow> r = r1) \<and>
           (snd r1 = Some ErrKeyNotFound \<longrightarrow> cache_loader lfu_cache c1 = None \<longrightarrow>
              r = (None, Some ErrKeyNotFound))"
  proof (rule Get_after_lookup[where P = P])
    show "cache_get lfu_cache key False now s = Some (r1, c1)" using g by (simp add: lfu_cache_def)
    show "P c1" using inv1 by (simp add: P_def)
    show "\<exists>r. cache_set lfu_cache k v now c = Some r \<and> (\<forall>c'. r = Inr c' \<longrightarrow> P c')" if "P c" for k v now c
    proof -
      from that have i: "lfu_inv c" by (simp add: P_def)
      from lfu_set_inv[OF i, of k v now] obtain r where
        r: "lfu_set k v now c = Some r"
        "case r of Inl e \<Rightarrow> True
            | Inr c' \<Rightarrow> lfu_inv c' \<and> csize c' = csize c \<and> hitCount c' = hitCount c \<and>
                missCount c' = missCount c \<and> length (freqList c') = length (freqList c) \<and>
                k \<in> fst ` set (lfu_items c') \<and>
                (0 < csize c \<longrightarrow> int (length (lfu_items c)) \<le> csize c \<longrightarrow>
                   int (length (lfu_items c')) \<le> csize c)" by blast
      with that show ?thesis by (cases r) (auto simp: lfu_cache_def P_def)
    qed
    show "P (cache_set_expiration lfu_cache k t c)" if "P c" for k t c
      using that by (simp add: lfu_cache_def P_def lfu_set_expiration_inv)
  qed
  then obtain r s' where G: "Get lfu_cache key now s = Some (r, s')" and P: "P s'"
    and a: "snd r1 \<noteq> Some ErrKeyNotFound \<longrightarrow> r = r1"
    and b: "snd r1 = Some ErrKeyNotFound \<longrightarrow> loaderExpireFunc s = None \<longrightarrow>
              r = (None, Some ErrKeyNotFound)"
    using cf by (auto simp: lfu_cache_def)
  from st P have c: "counted (has_item (lfu_items s) key now) s s'" by (simp add: counted_def P_def)
  from Get_result_cases[OF a b r1] c G show ?thesis
    by (auto simp: lfu_Existed_def)
qed

lemma arc_Get_counted:
  fixes s :: "('k, 'v) arcCache"
  assumes inv: "arc_inv s"
  shows "\<exists>r s'. Get arc_cache key now s = Some (r, s') \<and>
     counted (arc_Existed key now s) s s' \<and>
     (loaderExpireFunc s = None \<and> snd r = None \<longrightarrow> counted True s s') \<and>
     (deserializeFunc s = None \<and> snd r = Some ErrKeyNotFound \<longrightarrow> counted False s s')"
proof -
  from arc_get_stats[OF inv, of key False now] obtain r1 c1 where
    g: "arc_get key False now s = Some (r1, c1)" and inv1: "arc_inv c1"
    and cf: "loaderExpireFunc c1 = loaderExpireFunc s" "deserializeFunc c1 = deserializeFunc s"
    and st: "counted (has_item (arc_items s) key now) s c1"
    and r1: "if has_item (arc_items s) key now then (\<exists>v. r1 = deserialize s key v)
             else r1 = (None, Some ErrKeyNotFound)"
    by auto
  define P where "P = (\<lambda>x :: ('k, 'v) arcCache. arc_inv x \<and> hitCount x = hitCount c1 \<and> missCount x = missCount c1)"
  have "\<exists>r c'. Get arc_cache key now s = Some (r, c') \<and> P c' \<and>
           (snd r1 \<noteq> Some ErrKeyNotFound \<longrightarrow> r = r1) \<and>
           (snd r1 = Some ErrKeyNotFound \<longrightarrow> cache_loader arc_cache c1 = None \<longrightarrow>
              r = (None, Some ErrKeyNotFound))"
  proof (rule Get_after_lookup[where P = P])
    show "cache_get arc_cache key False now s = Some (r1, c1)" using g by (simp add: arc_cache_def)
    show "P c1" using inv1 by (simp add: P_def)
    show "\<exists>r. cache_set arc_cache k v now c = Some r \<and> (\<forall>c'. r = Inr c' \<longrightarrow> P c')" if "P c" for k v now c
    proof -
      from that have i: "arc_inv c" by (simp add: P_def)
      from arc_set_ok[OF i, of k v now] that show ?thesis
        by (auto simp: arc_cache_def P_def same_stats_def)
    qed
    show "P (cache_set_expiration arc_cache k t c)" if "P c" for k t c
      using that arc_set_expiration_ok[of c k t] by (simp add: arc_cache_def P_def)
  qed
  then obtain r s' where G: "Get arc_cache key now s = Some (r, s')" and P: "P s'"
    and a: "snd r1 \<noteq> Some ErrKeyNotFound \<longrightarrow> r = r1"
    and b: "snd r1 = Some ErrKeyNotFound \<longrightarrow> loaderExpireFunc s = None \<longrightarrow>
              r = (None, Some ErrKeyNotFound)"
    using cf by (auto simp: arc_cache_def)
  from st P have c: "counted (has_item (arc_items s) key now) s s'" by (simp add: counted_def P_def)
  from Get_result_cases[OF a b r1] c G show ?thesis
    by (auto simp: arc_Existed_def)
qed

subsection \<open>The LRU engine\<close>

lemma length_delete_le: "length (AList.delete k al) \<le> length al"
  by (induction al) auto

lemma length_delete_mem: "k \<in> fst ` set al \<Longrightarrow> length (AList.delete k al) < length al"
proof (induction al)
  case Nil
  then show ?case by simp
next
  case (Cons a al)
  show ?case
  proof (cases "fst a = k")
    case True
    then show ?thesis using length_delete_le[of k al] by (cases a) (simp add: less_Suc_eq_le)
  next
    case False
    with Cons.prems have "k \<in> fst ` set al" by auto
    from Cons.IH[OF this] False show ?thesis by (cases a) simp
  qed
qed

lemma lru_evict_fields:
  "csize (lru_evict c) = csize c" "expiration (lru_evict c) = expiration c"
  "hitCount (lru_evict c) = hitCount c" "missCount (lru_evict c) = missCount c"
  "loaderExpireFunc (lru_evict c) = loaderExpireFunc c"
  by (simp_all add: lru_evict_def lru_removeElement_def call_upd split: prod.splits)

lemma lru_evict_length:
  "evictList c \<noteq> [] \<Longrightarrow> length (evictList (lru_evict c)) < length (evictList c)"
proof -
  assume ne: "evictList c \<noteq> []"
  obtain k item where l: "last (evictList c) = (k, item)" by (cases "last (evictList c)")
  from ne have "last (evictList c) \<in> set (evictList c)" by simp
  with l have "k \<in> fst ` set (evictList c)" by force
  from length_delete_mem[OF this] ne l show ?thesis
    by (simp add: lru_evict_def lru_removeElement_def call_upd)
qed

lemma lru_set_bounded:
  fixes c :: "('k, 'v) LRUCache"
  assumes b: "lru_bounded n c" and s: "lru_set k v now c = Inr c'"
  shows "lru_bounded n c' \<and> same_stats c c'"
proof -
  from b have n: "0 < n" "csize c = n" "int (length (evictList c)) \<le> n"
    by (simp_all add: lru_bounded_def)
  from s obtain w where w: "serialize c k v = Inr w" by (auto simp: lru_set_def split: sum.splits)
  show ?thesis
  proof (cases "map_of (evictList c) k")
    case None
    show ?thesis
    proof (cases "int (length (evictList c)) \<ge> csize c")
      case True
      with n have "evictList c \<noteq> []" by auto
      from lru_evict_length[OF this] n None True s w show ?thesis
        by (auto simp: lru_set_def Let_def lru_evict_fields lru_bounded_def same_stats_def call_upd
            split: option.splits)
    next
      case False
      with n None s w show ?thesis
        by (auto simp: lru_set_def Let_def lru_bounded_def same_stats_def call_upd
            split: option.splits)
    qed
  next
    case (Some item)
    then have "k \<in> fst ` set (evictList c)" by (force dest!: map_of_SomeD)
    from length_delete_mem[OF this] n Some s w show ?thesis
      by (auto simp: lru_set_def Let_def lru_bounded_def same_stats_def call_upd
          split: option.splits)
  qed
qed

lemma lru_get_bounded:
  fixes c :: "('k, 'v) LRUCache"
  assumes b: "lru_bounded n c"
  shows "lru_bounded n (snd (lru_get k onLoad now c))"
proof (cases "map_of (evictList c) k")
  case None
  with b show ?thesis by (simp add: lru_get_def lru_getValue_def lru_bounded_def call_upd)
next
  case (Some item)
  then have "k \<in> fst ` set (evictList c)" by (force dest!: map_of_SomeD)
  from length_delete_mem[OF this] Some b show ?thesis
    by (simp add: lru_get_def lru_getValue_def lru_removeElement_def lru_bounded_def call_upd Let_def)
qed

lemma lru_apply_op_bounded:
  fixes c :: "('k, 'v) LRUCache"
  assumes "lru_bounded n c"
  shows "\<exists>c'. apply_op lru_cache x c = Some c' \<and> lru_bounded n c'"
proof (rule apply_op_preserves[where P = "lru_bounded n" and E = True])
  show "\<exists>r. cache_set lru_cache k v now c = Some r \<and> (\<forall>c'. r = Inr c' \<longrightarrow> lru_bounded n c')"
    if "lru_bounded n c" for k v now and c :: "('k, 'v) LRUCache"
    using lru_set_bounded[OF that] by (simp add: lru_cache_def)
  show "\<exists>r c'. cache_get lru_cache k onLoad now c = Some (r, c') \<and> lru_bounded n c'"
    if "lru_bounded n c" for k onLoad now and c :: "('k, 'v) LRUCache"
    using lru_get_bounded[OF that, of k onLoad now]
    by (cases "lru_get k onLoad now c") (simp add: lru_cache_def)
  show "lru_bounded n (cache_set_expiration lru_cache k t c)"
    if "lru_bounded n c" for k t and c :: "('k, 'v) LRUCache"
    using that by (simp add: lru_cache_def lru_bounded_def)
  show "\<exists>b c'. cache_Remove lru_cache k c = Some (b, c') \<and> lru_bounded n c'"
    if "lru_bounded n c" for k and c :: "('k, 'v) LRUCache"
    using that length_delete_le[of k "evictList c"]
    by (auto simp: lru_cache_def lru_Remove_def lru_remove_def lru_removeElement_def
        lru_bounded_def call_upd split: option.splits)
  show "lru_bounded n (cache_Purge lru_cache c)" if "lru_bounded n c" for c :: "('k, 'v) LRUCache"
    using that by (simp add: lru_cache_def lru_Purge_def lru_init_def lru_bounded_def call_upd)
qed (use assms in simp_all)

lemma newLRUCache_fields:
  "csize (newLRUCache cb) = b_size cb" "evictList (newLRUCache cb) = []"
  "expiration (newLRUCache cb) = b_expiration cb"
  "loaderExpireFunc (newLRUCache cb) = b_loaderExpireFunc cb"
  "hitCount (newLRUCache cb) = 0" "missCount (newLRUCache cb) = 0" "events (newLRUCache cb) = []"
  by (simp_all add: newLRUCache_def lru_init_def buildCache_def baseCache.extend_def
      LRUCache.fields_def)

lemma lru_run_bounded:
  "0 < b_size cb \<Longrightarrow> \<exists>c. run lru_cache ops (newLRUCache cb) = Some c \<and> lru_bounded (b_size cb) c"
proof (rule run_preserves[where Q = "\<lambda>x. True" and P = "lru_bounded (b_size cb)"])
  assume "0 < b_size cb"
  then show "lru_bounded (b_size cb) (newLRUCache cb)"
    by (simp add: lru_bounded_def newLRUCache_fields)
  show "list_all (\<lambda>x. True) ops" by (simp add: list_all_iff)
qed (rule lru_apply_op_bounded)

lemma lru_Len_le: "lru_Len True now c \<le> lru_Len False now c"
  using length_filter_le[of "\<lambda>k. has_item (evictList c) k now" "map fst (evictList c)"]
  by (simp add: lru_Len_def)


subsection \<open>The Simple engine without expirations, and its eviction\<close>

lemma apply_op_preserves_nottl:
  assumes set: "\<And>k v now c. P c \<Longrightarrow> \<exists>r. cache_set m k v now c = Some r \<and> (\<forall>c'. r = Inr c' \<longrightarrow> P c')"
    and get: "\<And>k onLoad now c. P c \<Longrightarrow> \<exists>r c'. cache_get m k onLoad now c = Some (r, c') \<and> P c'"
    and rem: "\<And>k c. P c \<Longrightarrow> \<exists>b c'. cache_Remove m k c = Some (b, c') \<and> P c'"
    and pur: "\<And>c. P c \<Longrightarrow> P (cache_Purge m c)"
    and nottl: "\<And>c f k. P c \<Longrightarrow> cache_loader m c = Some f \<Longrightarrow> fst (snd (f k)) = None"
    and ok: "op_nottl x"
    and P: "P c"
  shows "\<exists>c'. apply_op m x c = Some c' \<and> P c'"
proof -
  obtain now o' where x: "x = (now, o')" by (cases x)
  have gwl: "\<exists>r c'. getWithLoader m key isWait now c1 = Some (r, c') \<and> P c'"
    if "P c1" for key isWait now c1
    apply (rule getWithLoader_preserves[where P = P and E = False])
       apply (erule set)
      apply simp
     apply (erule (1) nottl)
    apply (rule that)
    done
  show ?thesis
  proof (cases o')
    case (OpSet k v)
    from set[OF P, of k v now] obtain r where "cache_set m k v now c = Some r" "\<And>c'. r = Inr c' \<Longrightarrow> P c'"
      by blast
    with P x OpSet show ?thesis by (cases r) (auto simp: apply_op_def Set_def)
  next
    case (OpSetWithExpire k v d)
    with ok x show ?thesis by simp
  next
    case (OpGet k)
    from get[OF P, of k False now] obtain r c1 where g: "cache_get m k False now c = Some (r, c1)" "P c1"
      by blast
    from gwl[OF g(2), of k True now] obtain r2 c2 where "getWithLoader m k True now c1 = Some (r2, c2)" "P c2"
      by blast
    with g x OpGet show ?thesis by (cases r) (auto simp: apply_op_def Get_def)
  next
    case (OpGetIFPresent k)
    from get[OF P, of k False now] obtain r c1 where g: "cache_get m k False now c = Some (r, c1)" "P c1"
      by blast
    from gwl[OF g(2), of k False now] obtain r2 c2 where "getWithLoader m k False now c1 = Some (r2, c2)" "P c2"
      by blast
    with g x OpGetIFPresent show ?thesis by (cases r) (auto simp: apply_op_def GetIFPresent_def)
  next
    case (OpRefresh k)
    from gwl[OF P, of k True now] x OpRefresh show ?thesis by (auto simp: apply_op_def Refresh_def)
  next
    case (OpRemove k)
    from rem[OF P, of k] x OpRemove show ?thesis by (auto simp: apply_op_def)
  next
    case OpPurge
    from pur[OF P] x OpPurge show ?thesis by (simp add: apply_op_def)
  qed
qed

lemma list_all_delete: "list_all P al \<Longrightarrow> list_all P (AList.delete k al)"
  by (auto simp: list_all_iff set_delete)

lemma list_all_update: "list_all P al \<Longrightarrow> P (k, v) \<Longrightarrow> list_all P (AList.update k v al)"
  using set_update_subset[of k v al] by (auto simp: list_all_iff)

lemma simple_remove_nottl:
  fixes c :: "('k, 'v) SimpleCache"
  assumes "simple_nottl n c"
  shows "simple_nottl n (snd (simple_remove k c))"
  using assms length_delete_le[of k "items c"]
  by (auto simp: simple_nottl_def simple_remove_def call_upd loader_without_ttl_def list_all_delete
      split: option.splits)

lemma simple_set_nottl:
  fixes c :: "('k, 'v) SimpleCache"
  assumes P: "simple_nottl n c" and s: "simple_set k v now c = Inr c'"
  shows "simple_nottl n c'"
proof -
  from P have n: "0 < n" "csize c = n" "expiration c = None" "loader_without_ttl c"
    "list_all (\<lambda>(k, item). item_expiration item = None) (items c)" "int (length (items c)) \<le> n"
    by (simp_all add: simple_nottl_def)
  from s obtain w where w: "serialize c k v = Inr w"
    by (auto simp: simple_set_def split: sum.splits)
  show ?thesis
  proof (cases "map_of (items c) k")
    case (Some item)
    from n(5) have "list_all (\<lambda>(k, item). item_expiration item = None)
        (AList.update k (item\<lparr>item_value := w\<rparr>) (items c))"
    proof (rule list_all_update)
      from Some have "(k, item) \<in> set (items c)" by (rule map_of_SomeD)
      with n(5) show "case (k, item\<lparr>item_value := w\<rparr>) of (k, item) \<Rightarrow> item_expiration item = None"
        by (auto simp: list_all_iff)
    qed
    with Some s w n show ?thesis
      by (auto simp: simple_set_def Let_def simple_nottl_def call_upd loader_without_ttl_def
          length_update_mem)
  next
    case None
    show ?thesis
    proof (cases "int (length (items c)) \<ge> csize c \<and> csize c > 0")
      case False
      with n have lt: "int (length (items c)) < n" by simp
      from n(5) have "list_all (\<lambda>(k, item). item_expiration item = None)
          (AList.update k \<lparr>item_value = w, item_expiration = None\<rparr> (items c))"
        by (rule list_all_update) simp
      with None False s w n lt show ?thesis
        by (auto simp: simple_set_def Let_def simple_nottl_def call_upd loader_without_ttl_def
            length_update_new)
    next
      case True
      with n obtain p rest where it: "items c = p # rest" by (cases "items c") auto
      obtain k0 item0 where p: "p = (k0, item0)" by (cases p)
      from n(5) it p have e0: "item_expiration item0 = None" by simp
      then have f: "find (\<lambda>(k, item). evictable item now) (items c) = Some (k0, item0)"
        by (simp add: it p evictable_def)
      define c1 where "c1 = snd (simple_remove k0 c)"
      from f have ev: "simple_evict 1 now c = c1" by (simp add: simple_evict_one c1_def)
      from simple_remove_nottl[OF P, of k0] have P1: "simple_nottl n c1" by (simp add: c1_def)
      have "k0 \<in> fst ` set (items c)" by (simp add: it p)
      from length_delete_mem[OF this] have l1: "length (items c1) < length (items c)"
        by (simp add: c1_def simple_remove_def it p call_upd)
      from None have "map_of (items c1) k = None"
        by (auto simp: c1_def simple_remove_def call_upd map_of_eq_None_iff set_delete
            split: option.splits)
      then have l2: "length (AList.update k \<lparr>item_value = w, item_expiration = None\<rparr> (items c1))
          = Suc (length (items c1))" by (rule length_update_new)
      from P1 have "list_all (\<lambda>(k, item). item_expiration item = None) (items c1)"
        by (simp add: simple_nottl_def)
      then have a: "list_all (\<lambda>(k, item). item_expiration item = None)
          (AList.update k \<lparr>item_value = w, item_expiration = None\<rparr> (items c1))"
        by (rule list_all_update) simp
      from P1 have f1: "csize c1 = n" "expiration c1 = None" "loader_without_ttl c1"
        by (simp_all add: simple_nottl_def)
      from None True s w ev have "c' = call_added k w
          (c1\<lparr>items := AList.update k \<lparr>item_value = w, item_expiration = None\<rparr> (items c1)\<rparr>)"
        using f1(2) by (simp add: simple_set_def Let_def)
      with a l1 l2 f1 n show ?thesis
        by (simp add: simple_nottl_def call_upd loader_without_ttl_def)
    qed
  qed
qed

lemma simple_get_nottl:
  fixes c :: "('k, 'v) SimpleCache"
  assumes P: "simple_nottl n c"
  shows "simple_nottl n (snd (simple_get k onLoad now c))"
proof (cases "map_of (items c) k")
  case None
  with P show ?thesis
    by (simp add: simple_get_def simple_getValue_def simple_nottl_def call_upd
        loader_without_ttl_def)
next
  case (Some item)
  from simple_remove_nottl[OF P, of k] Some P show ?thesis
    by (auto simp: simple_get_def simple_getValue_def simple_nottl_def call_upd
        loader_without_ttl_def Let_def)
qed

lemma simple_apply_op_nottl:
  fixes c :: "('k, 'v) SimpleCache"
  assumes "op_nottl x" and "simple_nottl n c"
  shows "\<exists>c'. apply_op simple_cache x c = Some c' \<and> simple_nottl n c'"
proof (rule apply_op_preserves_nottl[where P = "simple_nottl n"])
  show "\<exists>r. cache_set simple_cache k v now c = Some r \<and> (\<forall>c'. r = Inr c' \<longrightarrow> simple_nottl n c')"
    if "simple_nottl n c" for k v now and c :: "('k, 'v) SimpleCache"
    using simple_set_nottl[OF that] by (simp add: simple_cache_def)
  show "\<exists>r c'. cache_get simple_cache k onLoad now c = Some (r, c') \<and> simple_nottl n c'"
    if "simple_nottl n c" for k onLoad now and c :: "('k, 'v) SimpleCache"
    using simple_get_nottl[OF that, of k onLoad now]
    by (cases "simple_get k onLoad now c") (simp add: simple_cache_def)
  show "\<exists>b c'. cache_Remove simple_cache k c = Some (b, c') \<and> simple_nottl n c'"
    if "simple_nottl n c" for k and c :: "('k, 'v) SimpleCache"
    using simple_remove_nottl[OF that, of k]
    by (cases "simple_remove k c") (simp add: simple_cache_def simple_Remove_def)
  show "simple_nottl n (cache_Purge simple_cache c)"
    if "simple_nottl n c" for c :: "('k, 'v) SimpleCache"
    using that
    by (simp add: simple_cache_def simple_Purge_def simple_init_def simple_nottl_def call_upd
        loader_without_ttl_def)
  show "fst (snd (f k)) = None"
    if "simple_nottl n c" "cache_loader simple_cache c = Some f"
    for c :: "('k, 'v) SimpleCache" and f k
    using that by (simp add: simple_cache_def simple_nottl_def loader_without_ttl_def)
qed (use assms in simp_all)

lemma simple_run_nottl:
  assumes "0 < b_size cb" and "b_expiration cb = None"
    and "case b_loaderExpireFunc cb of None \<Rightarrow> True | Some f \<Rightarrow> \<forall>key. fst (snd (f key)) = None"
    and "list_all op_nottl ops"
  shows "\<exists>c. run simple_cache ops (newSimpleCache cb) = Some c \<and> simple_nottl (b_size cb) c"
proof (rule run_preserves[where Q = op_nottl and P = "simple_nottl (b_size cb)"])
  show "simple_nottl (b_size cb) (newSimpleCache cb)"
    using assms(1-3)
    by (simp add: simple_nottl_def newSimpleCache_def simple_init_def buildCache_def
        baseCache.extend_def SimpleCache.fields_def loader_without_ttl_def)
  show "list_all op_nottl ops" by (rule assms(4))
qed (rule simple_apply_op_nottl)

lemma simple_Len_le: "simple_Len True now c \<le> simple_Len False now c"
  using length_filter_le[of "\<lambda>k. has_item (items c) k now" "map fst (items c)"]
  by (simp add: simple_Len_def)

lemma update_append_last:
  "k \<notin> fst ` set al \<Longrightarrow> AList.update k v (al @ [(k, u)]) = al @ [(k, v)]"
  by (induction al) auto

lemma find_distinct_map_of:
  "distinct (map fst al) \<Longrightarrow> find P al = Some (k, item) \<Longrightarrow> map_of al k = Some item"
  by (auto simp: find_Some_iff in_set_conv_nth intro!: map_of_is_SomeI)

lemma simple_set_fresh_full:
  fixes s :: "('k, 'v) SimpleCache"
  assumes dist: "distinct (map fst (items s))" and new: "map_of (items s) key = None"
    and full: "0 < csize s" "csize s \<le> int (length (items s))"
    and ser: "serialize s key v = Inr w"
  shows "\<exists>s'. simple_set key v now s = Inr s' \<and>
           (case find (\<lambda>(k, item). case item_expiration item of None \<Rightarrow> True | Some e \<Rightarrow> e < now)
                   (items s) of
              None \<Rightarrow>
                items s' = items s @
                  [(key, \<lparr>item_value = w,
                          item_expiration = map_option (\<lambda>d. now + d) (expiration s)\<rparr>)] \<and>
                events s' = events s @ (if addedFunc s then [Added key w] else [])
            | Some (k, item) \<Rightarrow>
                items s' = AList.delete k (items s) @
                  [(key, \<lparr>item_value = w,
                          item_expiration = map_option (\<lambda>d. now + d) (expiration s)\<rparr>)] \<and>
                events s' = events s @ (if evictedFunc s then [Evicted k (item_value item)] else []) @
                  (if addedFunc s then [Added key w] else []))"
proof -
  let ?ev = "\<lambda>(k, item). case item_expiration item of None \<Rightarrow> True | Some e \<Rightarrow> e < now"
  have ev: "(\<lambda>(k, item). evictable item now) = ?ev" by (simp add: evictable_def fun_eq_iff)
  from new have nk: "key \<notin> fst ` set (items s)" by (simp add: map_of_eq_None_iff)
  show ?thesis
  proof (cases "find ?ev (items s)")
    case None
    then have e1: "simple_evict 1 now s = s" by (simp add: simple_evict_one ev)
    from nk have u: "AList.update key \<lparr>item_value = w, item_expiration = None\<rparr> (items s)
        = items s @ [(key, \<lparr>item_value = w, item_expiration = None\<rparr>)]"
      by (rule update_new_append)
    from None new full ser e1 u nk show ?thesis
      by (auto simp: simple_set_def Let_def call_upd set_item_expiration_def update_append_last
          split: option.splits)
  next
    case (Some p)
    obtain k item where p: "p = (k, item)" by (cases p)
    from find_distinct_map_of[OF dist Some[unfolded p]] have mo: "map_of (items s) k = Some item" .
    from Some p have e1: "simple_evict 1 now s =
        call_evicted k (item_value item) (s\<lparr>items := AList.delete k (items s)\<rparr>)"
      by (simp add: simple_evict_one ev simple_remove_def mo)
    from nk have nk': "key \<notin> fst ` set (AList.delete k (items s))" by (auto simp: set_delete)
    then have u: "AList.update key \<lparr>item_value = w, item_expiration = None\<rparr> (AList.delete k (items s))
        = AList.delete k (items s) @ [(key, \<lparr>item_value = w, item_expiration = None\<rparr>)]"
      by (rule update_new_append)
    from nk' have mo': "map_of (AList.delete k (items s)) key = None"
      by (simp add: map_of_eq_None_iff)
    from Some p new full ser e1 u nk' mo' show ?thesis
      by (auto simp: simple_set_def Let_def call_upd set_item_expiration_def update_append_last
          split: option.splits)
  qed
qed

subsection \<open>Counters, removal and purge of the LRU engine\<close>

lemma lru_set_stats:
  "lru_set k v now c = Inr c' \<Longrightarrow> hitCount c' = hitCount c \<and> missCount c' = missCount c"
  by (auto simp: lru_set_def lru_evict_fields call_upd Let_def
      split: sum.splits option.splits if_splits)

lemma lru_get_stats:
  "\<exists>r c'. lru_get k onLoad now c = (r, c') \<and>
     loaderExpireFunc c' = loaderExpireFunc c \<and> deserializeFunc c' = deserializeFunc c \<and>
     (if onLoad then same_stats c c' else counted (has_item (evictList c) k now) c c') \<and>
     (if has_item (evictList c) k now then (\<exists>v. r = deserialize c k v)
      else r = (None, Some ErrKeyNotFound))"
proof (cases "map_of (evictList c) k")
  case None
  then show ?thesis
    by (simp add: lru_get_def lru_getValue_def call_upd has_item_def same_stats_def counted_def)
next
  case (Some item)
  show ?thesis
  proof (cases "IsExpired item now")
    case True
    with Some show ?thesis
      by (simp add: lru_get_def lru_getValue_def lru_removeElement_def call_upd Let_def
          has_item_def same_stats_def counted_def)
  next
    case False
    define c1 where "c1 = c\<lparr>evictList := (k, item) # AList.delete k (evictList c)\<rparr>"
    have d: "deserialize c1 = deserialize c" by (rule deserialize_cong) (simp add: c1_def)
    from Some False have "lru_get k onLoad now c =
        (deserialize c k (item_value item), if \<not> onLoad then IncrHitCount c1 else c1)"
      by (simp add: lru_get_def lru_getValue_def deserialize_IncrHitCount Let_def c1_def[symmetric] d)
    with Some False show ?thesis
      by (auto simp: has_item_def same_stats_def counted_def call_upd c1_def)
  qed
qed

lemma lru_Get_counted:
  fixes s :: "('k, 'v) LRUCache"
  shows "\<exists>r s'. Get lru_cache key now s = Some (r, s') \<and>
     counted (lru_Existed key now s) s s' \<and>
     (loaderExpireFunc s = None \<and> snd r = None \<longrightarrow> counted True s s') \<and>
     (deserializeFunc s = None \<and> snd r = Some ErrKeyNotFound \<longrightarrow> counted False s s')"
proof -
  from lru_get_stats[of key False now s] obtain r1 c1 where
    g: "lru_get key False now s = (r1, c1)"
    and cf: "loaderExpireFunc c1 = loaderExpireFunc s" "deserializeFunc c1 = deserializeFunc s"
    and st: "counted (has_item (evictList s) key now) s c1"
    and r1: "if has_item (evictList s) key now then (\<exists>v. r1 = deserialize s key v)
             else r1 = (None, Some ErrKeyNotFound)"
    by auto
  define P where "P = (\<lambda>x :: ('k, 'v) LRUCache. hitCount x = hitCount c1 \<and> missCount x = missCount c1)"
  have "\<exists>r c'. Get lru_cache key now s = Some (r, c') \<and> P c' \<and>
           (snd r1 \<noteq> Some ErrKeyNotFound \<longrightarrow> r = r1) \<and>
           (snd r1 = Some ErrKeyNotFound \<longrightarrow> cache_loader lru_cache c1 = None \<longrightarrow>
              r = (None, Some ErrKeyNotFound))"
  proof (rule Get_after_lookup[where P = P])
    show "cache_get lru_cache key False now s = Some (r1, c1)" using g by (simp add: lru_cache_def)
    show "P c1" by (simp add: P_def)
    show "\<exists>r. cache_set lru_cache k v now c = Some r \<and> (\<forall>c'. r = Inr c' \<longrightarrow> P c')" if "P c" for k v now c
      using that lru_set_stats[of k v now c] by (auto simp: lru_cache_def P_def)
    show "P (cache_set_expiration lru_cache k t c)" if "P c" for k t c
      using that by (simp add: lru_cache_def P_def)
  qed
  then obtain r s' where G: "Get lru_cache key now s = Some (r, s')" and P: "P s'"
    and a: "snd r1 \<noteq> Some ErrKeyNotFound \<longrightarrow> r = r1"
    and b: "snd r1 = Some ErrKeyNotFound \<longrightarrow> loaderExpireFunc s = None \<longrightarrow>
              r = (None, Some ErrKeyNotFound)"
    using cf by (auto simp: lru_cache_def)
  from st P have c: "counted (has_item (evictList s) key now) s s'" by (simp add: counted_def P_def)
  from Get_result_cases[OF a b r1] c G show ?thesis
    by (auto simp: lru_Existed_def)
qed

lemma lru_Remove_twice:
  "map_of (evictList u) key \<noteq> None \<Longrightarrow>
     (case lru_Remove key u of (r1, u1) \<Rightarrow> r1 \<and> \<not> fst (lru_Remove key u1))"
  by (auto simp: lru_Remove_def lru_remove_def lru_removeElement_def call_upd)

lemma lru_Purge_eq:
  "events (lru_Purge u) =
     events u @ (if purgeVisitorFunc u
                 then map (\<lambda>(k, item). PurgeVisited k (item_value item)) (evictList u) else []) \<and>
   lru_Len False now (lru_Purge u) = 0 \<and>
   hitCount (lru_Purge u) = hitCount u \<and> missCount (lru_Purge u) = missCount u"
  by (simp add: lru_Purge_def lru_init_def lru_Len_def call_upd case_prod_unfold comp_def)



subsection \<open>Evaluation of concrete runs\<close>

lemmas base_eval = New_def buildCache_def baseCache.extend_def serialize_def deserialize_def
  call_added_def call_evicted_def call_purgeVisitor_def IncrHitCount_def IncrMissCount_def
  set_item_expiration_def has_item_def IsExpired_def
lemmas simple_eval = evictable_def newSimpleCache_def SimpleCache.fields_def simple_init_def simple_cache_def
  simple_set_def simple_get_def simple_getValue_def simple_remove_def simple_Remove_def
  simple_evict_def simple_Purge_def simple_Existed_def simple_Len_def simple_Keys_def simple_GetALL_def
lemmas lfu_eval = newLFUCache_def lfuCache.fields_def lfu_init_def lfu_cache_def
  lfu_set_def lfu_get_def lfu_getValue_def lfu_remove_def lfu_Remove_def lfu_removeItem_def
  lfu_evict_def lfu_increment_def lfu_Purge_def lfu_Existed_def lfu_Len_def lfu_Keys_def lfu_GetALL_def
lemmas arc_eval = newARC_def arcCache.fields_def arc_init_def arc_cache_def arc_set_def
  arc_set_lists_def al_Has_def al_Len_def isCacheFull_def arc_replace_def al_PushFront_def
  al_RemoveTail_def al_Remove_def al_MoveToFront_def arc_drop_item_def setPart_def minInt_def
  maxInt_def arc_get_def arc_getValue_def arc_getValue_t1_def arc_getValue_t2_def arc_remove_def
  arc_Remove_def arc_Purge_def arc_Existed_def arc_Len_def arc_Keys_def arc_GetALL_def
lemmas lru_eval = newLRUCache_def LRUCache.fields_def lru_init_def lru_cache_def lru_set_def
  lru_get_def lru_getValue_def lru_remove_def lru_Remove_def lru_removeElement_def lru_evict_def
  lru_Purge_def lru_Existed_def lru_Len_def lru_Keys_def lru_GetALL_def
lemmas facade_eval = apply_op_def Set_def SetWithExpire_def Get_def GetIFPresent_def Refresh_def
  getWithLoader_def load_def Group_Do_def loader_callback_def

lemma S3_three_eval:
  "S3_three = Some (S3_cache\<lparr>arc_items := [(''B'', \<lparr>item_value = 2, item_expiration = None\<rparr>),
                                          (''C'', \<lparr>item_value = 3, item_expiration = None\<rparr>)],
                           t1 := [''C'', ''B'']\<rparr>)"
  by (simp add: S3_three_def S3_cache_def base_eval arc_eval facade_eval)

lemma S3_four_eval:
  "S3_four = Some (S3_cache\<lparr>arc_items := [(''C'', \<lparr>item_value = 3, item_expiration = None\<rparr>),
                                         (''A'', \<lparr>item_value = 9, item_expiration = None\<rparr>)],
                           t1 := [''A'', ''C'']\<rparr>)"
  by (simp add: S3_four_def S3_three_eval) (simp add: S3_cache_def base_eval arc_eval facade_eval)

lemma S3_get_eval:
  "S3_get = Some ((Some 9, None),
              S3_cache\<lparr>arc_items := [(''C'', \<lparr>item_value = 3, item_expiration = None\<rparr>),
                                     (''A'', \<lparr>item_value = 9, item_expiration = None\<rparr>)],
                       t1 := [''C''], t2 := [''A''], hitCount := 1\<rparr>)"
  by (simp add: S3_get_def S3_four_eval) (simp add: S3_cache_def base_eval arc_eval facade_eval)


section \<open>The claims\<close>

subsection \<open>C3: the ARC scenario S3\<close>

text \<open>
  C3, as stated, fails. After \<open>Set(A,1); Set(B,2); Set(C,3)\<close> on a cache of capacity 2
  the ghost list \<open>B1\<close> is empty: \<open>A\<close> is not demoted to it. After \<open>Set(A,9)\<close> the
  partition parameter is still 0 (not 1) and \<open>A\<close> is at the front of \<open>T1\<close>, not in
  \<open>T2\<close>.
\<close>

theorem C3_counterexample:
  "map_option b1 S3_three = Some [] \<and> map_option part S3_four = Some 0 \<and>
   map_option t2 S3_four = Some [] \<and> map_option t1 S3_four = Some [''A'', ''C'']"
  by (simp add: S3_three_eval S3_four_eval) (simp add: S3_cache_def base_eval arc_eval)

text \<open>
  C3, amended. \<open>Set(A,1); Set(B,2); Set(C,3)\<close> leaves \<open>T1 = [C, B]\<close>, the other lists
  empty and \<open>p = 0\<close>: the third insertion finds \<open>|T1| = N\<close>, so the tail \<open>A\<close> of \<open>T1\<close>
  is discarded with its value and recorded nowhere. \<open>Set(A,9)\<close> is then an insertion of
  a key that no list holds: it discards \<open>B\<close> in the same way, leaves \<open>p = 0\<close> and puts
  \<open>A\<close> at the front of \<open>T1\<close> with value 9. \<open>Get(A)\<close> returns 9 with no error and moves
  \<open>A\<close> to \<open>T2\<close>.
\<close>

theorem C3_scenario:
  "map_option (\<lambda>c. (t1 c, t2 c, b1 c, b2 c, part c)) S3_three = Some ([''C'', ''B''], [], [], [], 0) \<and>
   map_option (\<lambda>c. map_of (arc_items c) ''A'') S3_three = Some None \<and>
   map_option (\<lambda>c. (t1 c, t2 c, b1 c, b2 c, part c)) S3_four = Some ([''A'', ''C''], [], [], [], 0) \<and>
   map_option (\<lambda>c. map_option item_value (map_of (arc_items c) ''A'')) S3_four = Some (Some 9) \<and>
   map_option (\<lambda>c. map_of (arc_items c) ''B'') S3_four = Some None \<and>
   map_option fst S3_get = Some (Some 9, None) \<and>
   map_option (\<lambda>r. (t1 (snd r), t2 (snd r), b1 (snd r), b2 (snd r), part (snd r))) S3_get
     = Some ([''C''], [''A''], [], [], 0)"
  by (simp add: S3_three_eval S3_four_eval S3_get_eval) (simp add: S3_cache_def base_eval arc_eval)

subsection \<open>C4: errors of the deserialize hook\<close>

text \<open>
  C4 at its failing input: one entry under the key \<open>k\<close>, and a deserialize hook that
  returns the error \<open>boom\<close>. \<open>Get\<close> returns that error; \<open>GetIFPresent\<close> returns
  \<open>(nil, nil)\<close>, for the Simple engine (\<open>baseCache.GetIFPresent\<close>) and for the LFU
  engine (\<open>lfuCache.GetIFPresent\<close>).
\<close>

theorem C4_GetIFPresent_drops_error:
  "map_option fst (Option.bind C4_simple (Get simple_cache ''k'' 0)) = Some (None, Some (OtherError ''boom'')) \<and>
   map_option fst (Option.bind C4_simple (GetIFPresent simple_cache ''k'' 0)) = Some (None, None) \<and>
   map_option fst (Option.bind C4_lfu (Get lfu_cache ''k'' 0)) = Some (None, Some (OtherError ''boom'')) \<and>
   map_option fst (Option.bind C4_lfu (GetIFPresent lfu_cache ''k'' 0)) = Some (None, None)"
  by (simp add: C4_simple_def C4_lfu_def C4_deserialize_def base_eval simple_eval lfu_eval facade_eval)

subsection \<open>C1: the number of entries of a bounded engine\<close>

text \<open>
  C1, as stated, fails for the Simple engine. With capacity 1, \<open>SetWithExpire(A, 1, 10)\<close>
  followed at the same instant by \<open>Set(B, 2)\<close> leaves two entries: the only entry
  carries an expiration that has not passed, \<open>evict\<close> skips it, and the insertion
  completes with nothing removed.
\<close>

theorem C1_counterexample:
  "map_option (simple_Len False 0) C1_simple_run = Some 2 \<and>
   map_option csize C1_simple_run = Some 1 \<and>
   map_option items C1_simple_run =
     Some [(''A'', \<lparr>item_value = 1, item_expiration = Some 10\<rparr>),
           (''B'', \<lparr>item_value = 2, item_expiration = None\<rparr>)]"
  by (simp add: C1_simple_run_def base_eval simple_eval facade_eval)

text \<open>
  C1, amended. For the LFU, the ARC and the LRU engine with capacity \<open>N > 0\<close>, every run
  of \<open>Set\<close>, \<open>SetWithExpire\<close>, \<open>Get\<close>, \<open>GetIFPresent\<close>, \<open>Refresh\<close>, \<open>Remove\<close> and
  \<open>Purge\<close> from the new cache ends without panic in a state with at most \<open>N\<close> entries
  (\<open>Len(false)\<close>, hence \<open>Len(true)\<close>). For the Simple engine with \<open>N > 0\<close> the same holds
  for every run without \<open>SetWithExpire\<close> on a cache that has no default expiration and no
  loader that sets one. In general, a \<open>set\<close> of the Simple engine for a key that is not
  present, while \<open>len(items) \<ge> N\<close>, returns the error of the serialize hook if it fails;
  otherwise it removes the first entry, in iteration order, that has no expiration or an
  expiration strictly before \<open>now\<close>, with the evicted callback for it, and the count stays
  the same; if there is no such entry it removes nothing, and the count grows by one. Either
  way the key is stored with the serialized value and the default expiration, and the
  added callback is called.
\<close>

theorem C1_entry_count:
  "(0 < b_size cb \<longrightarrow>
      (case run lfu_cache ops (newLFUCache cb) of
         None \<Rightarrow> False
       | Some c \<Rightarrow> lfu_Len False now c \<le> b_size cb \<and> lfu_Len True now c \<le> b_size cb)) \<and>
   (0 < b_size cb \<longrightarrow>
      (case run arc_cache ops (newARC cb) of
         None \<Rightarrow> False
       | Some c \<Rightarrow> arc_Len False now c \<le> b_size cb \<and> arc_Len True now c \<le> b_size cb)) \<and>
   (0 < b_size cb \<longrightarrow>
      (case run lru_cache ops (newLRUCache cb) of
         None \<Rightarrow> False
       | Some c \<Rightarrow> lru_Len False now c \<le> b_size cb \<and> lru_Len True now c \<le> b_size cb)) \<and>
   (0 < b_size cb \<and> b_expiration cb = None \<and>
    (case b_loaderExpireFunc cb of None \<Rightarrow> True | Some f \<Rightarrow> \<forall>key. fst (snd (f key)) = None) \<and>
    list_all op_nottl ops \<longrightarrow>
      (case run simple_cache ops (newSimpleCache cb) of
         None \<Rightarrow> False
       | Some c \<Rightarrow> simple_Len False now c \<le> b_size cb \<and> simple_Len True now c \<le> b_size cb)) \<and>
   (distinct (map fst (items s)) \<and> map_of (items s) key = None \<and>
    0 < csize s \<and> csize s \<le> int (length (items s)) \<longrightarrow>
      (case serialize s key v of
         Inl e \<Rightarrow> simple_set key v now s = Inl e
       | Inr w \<Rightarrow>
           (case simple_set key v now s of
              Inl e \<Rightarrow> False
            | Inr s' \<Rightarrow>
                (case find (\<lambda>(k, item). case item_expiration item of
                                           None \<Rightarrow> True | Some e \<Rightarrow> e < now) (items s) of
                   None \<Rightarrow>
                     items s' = items s @
                       [(key, \<lparr>item_value = w,
                               item_expiration = map_option (\<lambda>d. now + d) (expiration s)\<rparr>)] \<and>
                     int (length (items s')) = int (length (items s)) + 1 \<and>
                     events s' = events s @ (if addedFunc s then [Added key w] else [])
                 | Some (k, item) \<Rightarrow>
                     items s' = AList.delete k (items s) @
                       [(key, \<lparr>item_value = w,
                               item_expiration = map_option (\<lambda>d. now + d) (expiration s)\<rparr>)] \<and>
                     int (length (items s')) = int (length (items s)) \<and>
                     events s' =
                       events s @ (if evictedFunc s then [Evicted k (item_value item)] else []) @
                         (if addedFunc s then [Added key w] else [])))))"
proof (intro conjI impI)
  assume N: "0 < b_size cb"
  from lfu_run_bounded[OF N, of ops] obtain c where
    "run lfu_cache ops (newLFUCache cb) = Some c" "lfu_bounded (b_size cb) c" by blast
  then show "case run lfu_cache ops (newLFUCache cb) of
         None \<Rightarrow> False
       | Some c \<Rightarrow> lfu_Len False now c \<le> b_size cb \<and> lfu_Len True now c \<le> b_size cb"
    using lfu_Len_le[of now c] by (simp add: lfu_bounded_def)
next
  assume N: "0 < b_size cb"
  from arc_run_sized[OF N, of ops] obtain c where
    r: "run arc_cache ops (newARC cb) = Some c" and s: "arc_sized (b_size cb) c" by blast
  from s have "int (length (arc_items c)) \<le> b_size cb"
    using arc_inv_length_items[of c] by (simp add: arc_sized_def arc_inv_def al_Len_def)
  with r show "case run arc_cache ops (newARC cb) of
         None \<Rightarrow> False
       | Some c \<Rightarrow> arc_Len False now c \<le> b_size cb \<and> arc_Len True now c \<le> b_size cb"
    using arc_Len_le[of now c] by simp
next
  assume N: "0 < b_size cb"
  from lru_run_bounded[OF N, of ops] obtain c where
    r: "run lru_cache ops (newLRUCache cb) = Some c" and b: "lru_bounded (b_size cb) c" by blast
  from b have "lru_Len False now c \<le> b_size cb" by (simp add: lru_bounded_def lru_Len_def)
  with r show "case run lru_cache ops (newLRUCache cb) of
         None \<Rightarrow> False
       | Some c \<Rightarrow> lru_Len False now c \<le> b_size cb \<and> lru_Len True now c \<le> b_size cb"
    using lru_Len_le[of now c] by simp
next
  assume a: "0 < b_size cb \<and> b_expiration cb = None \<and>
    (case b_loaderExpireFunc cb of None \<Rightarrow> True | Some f \<Rightarrow> \<forall>key. fst (snd (f key)) = None) \<and>
    list_all op_nottl ops"
  then have "\<exists>c. run simple_cache ops (newSimpleCache cb) = Some c \<and> simple_nottl (b_size cb) c"
    by (intro simple_run_nottl) simp_all
  then obtain c where r: "run simple_cache ops (newSimpleCache cb) = Some c"
    and b: "simple_nottl (b_size cb) c" by blast
  from b have "simple_Len False now c \<le> b_size cb" by (simp add: simple_nottl_def simple_Len_def)
  with r show "case run simple_cache ops (newSimpleCache cb) of
         None \<Rightarrow> False
       | Some c \<Rightarrow> simple_Len False now c \<le> b_size cb \<and> simple_Len True now c \<le> b_size cb"
    using simple_Len_le[of now c] by simp
next
  assume a: "distinct (map fst (items s)) \<and> map_of (items s) key = None \<and>
    0 < csize s \<and> csize s \<le> int (length (items s))"
  show "case serialize s key v of
         Inl e \<Rightarrow> simple_set key v now s = Inl e
       | Inr w \<Rightarrow>
           (case simple_set key v now s of
              Inl e \<Rightarrow> False
            | Inr s' \<Rightarrow>
                (case find (\<lambda>(k, item). case item_expiration item of
                                           None \<Rightarrow> True | Some e \<Rightarrow> e < now) (items s) of
                   None \<Rightarrow>
                     items s' = items s @
                       [(key, \<lparr>item_value = w,
                               item_expiration = map_option (\<lambda>d. now + d) (expiration s)\<rparr>)] \<and>
                     int (length (items s')) = int (length (items s)) + 1 \<and>
                     events s' = events s @ (if addedFunc s then [Added key w] else [])
                 | Some (k, item) \<Rightarrow>
                     items s' = AList.delete k (items s) @
                       [(key, \<lparr>item_value = w,
                               item_expiration = map_option (\<lambda>d. now + d) (expiration s)\<rparr>)] \<and>
                     int (length (items s')) = int (length (items s)) \<and>
                     events s' =
                       events s @ (if evictedFunc s then [Evicted k (item_value item)] else []) @
                         (if addedFunc s then [Added key w] else [])))"
  proof (cases "serialize s key v")
    case (Inl e)
    then show ?thesis by (simp add: simple_set_def)
  next
    case (Inr w)
    from a have dist: "distinct (map fst (items s))" and new: "map_of (items s) key = None"
      and full: "0 < csize s" "csize s \<le> int (length (items s))" by simp_all
    from simple_set_fresh_full[OF dist new full Inr, of now] obtain s' where
      s': "simple_set key v now s = Inr s'" and
      c: "case find (\<lambda>(k, item). case item_expiration item of None \<Rightarrow> True | Some e \<Rightarrow> e < now)
                   (items s) of
              None \<Rightarrow>
                items s' = items s @
                  [(key, \<lparr>item_value = w,
                          item_expiration = map_option (\<lambda>d. now + d) (expiration s)\<rparr>)] \<and>
                events s' = events s @ (if addedFunc s then [Added key w] else [])
            | Some (k, item) \<Rightarrow>
                items s' = AList.delete k (items s) @
                  [(key, \<lparr>item_value = w,
                          item_expiration = map_option (\<lambda>d. now + d) (expiration s)\<rparr>)] \<and>
                events s' = events s @ (if evictedFunc s then [Evicted k (item_value item)] else []) @
                  (if addedFunc s then [Added key w] else [])"
      by blast
    show ?thesis
    proof (cases "find (\<lambda>(k, item). case item_expiration item of None \<Rightarrow> True | Some e \<Rightarrow> e < now)
                   (items s)")
      case None
      with c Inr s' show ?thesis by simp
    next
      case (Some p)
      obtain k item where p: "p = (k, item)" by (cases p)
      from find_distinct_map_of[OF dist Some[unfolded p]] have "map_of (items s) k = Some item" .
      then have "k \<in> fst ` set (items s)" by (force dest!: map_of_SomeD)
      from length_delete_distinct[OF dist this] Some p c Inr s' show ?thesis by simp
    qed
  qed
qed

text \<open>
  C1 at a concrete input: capacity 2 and a run of four operations for each engine, and a
  full Simple cache of capacity 1 whose entry has no expiration.
\<close>

theorem C1_entry_count_witness:
  "0 < b_size (New 2 :: (string, nat) CacheBuilder) \<and>
   b_expiration (New 2 :: (string, nat) CacheBuilder) = None \<and>
   b_loaderExpireFunc (New 2 :: (string, nat) CacheBuilder) = None \<and>
   list_all op_nottl C1_ops \<and>
   (case run lfu_cache C1_ops (newLFUCache (New 2)) of
      None \<Rightarrow> False | Some c \<Rightarrow> lfu_Len False 3 c = 2 \<and> lfu_Len False 3 c \<le> 2 \<and> lfu_Len True 3 c \<le> 2) \<and>
   (case run arc_cache C1_ops (newARC (New 2)) of
      None \<Rightarrow> False | Some c \<Rightarrow> arc_Len False 3 c = 2 \<and> arc_Len False 3 c \<le> 2 \<and> arc_Len True 3 c \<le> 2) \<and>
   (case run lru_cache C1_ops (newLRUCache (New 2)) of
      None \<Rightarrow> False
    | Some c \<Rightarrow> map fst (evictList c) = [''C'', ''A''] \<and> lru_Len False 3 c \<le> 2 \<and> lru_Len True 3 c \<le> 2) \<and>
   (case run simple_cache C1_ops (newSimpleCache (New 2)) of
      None \<Rightarrow> False
    | Some c \<Rightarrow> map fst (items c) = [''B'', ''C''] \<and> simple_Len False 3 c \<le> 2 \<and> simple_Len True 3 c \<le> 2) \<and>
   distinct (map fst (items C1_simple_full)) \<and> map_of (items C1_simple_full) ''B'' = None \<and>
   0 < csize C1_simple_full \<and> csize C1_simple_full \<le> int (length (items C1_simple_full)) \<and>
   serialize C1_simple_full ''B'' 2 = Inr 2 \<and>
   find (\<lambda>(k, item). case item_expiration item of None \<Rightarrow> True | Some e \<Rightarrow> e < 0)
     (items C1_simple_full) = Some (''A'', \<lparr>item_value = 1, item_expiration = None\<rparr>) \<and>
   (case simple_set ''B'' 2 0 C1_simple_full of
      Inl e \<Rightarrow> False
    | Inr s' \<Rightarrow>
        items s' = [(''B'', \<lparr>item_value = 2, item_expiration = None\<rparr>)] \<and>
        int (length (items s')) = int (length (items C1_simple_full)))"
  using C1_entry_count[where cb = "New 2" and ops = C1_ops and now = 3 and s = C1_simple_full
      and key = "''B''" and v = 2]
    C1_entry_count[where cb = "New 2" and ops = C1_ops and now = 0 and s = C1_simple_full
      and key = "''B''" and v = 2]
  by (simp add: C1_ops_def C1_simple_full_def base_eval simple_eval lfu_eval arc_eval lru_eval
      facade_eval)


subsection \<open>C2: the invariants of the ARC engine\<close>

text \<open>
  C2, as stated, fails. With capacity 1, \<open>Set(A,1); Remove(A); Set(B,2)\<close> ends with
  \<open>T1 = [B]\<close> and \<open>B1 = [A]\<close>: \<open>Remove\<close> pushed \<open>A\<close> on the ghost list, the cache was
  not full when \<open>B\<close> arrived, and \<open>|T1| + |B1| = 2 > N\<close>.
\<close>

theorem C2_counterexample:
  "map_option t1 C2_run = Some [''B''] \<and> map_option b1 C2_run = Some [''A''] \<and>
   map_option csize C2_run = Some 1 \<and>
   \<not> al_Len [''B''] + al_Len [''A''] \<le> 1"
  by (simp add: C2_run_def base_eval arc_eval facade_eval)

text \<open>
  C2, amended. For an ARC cache of capacity \<open>N > 0\<close>, every run of \<open>Set\<close>,
  \<open>SetWithExpire\<close>, \<open>Get\<close>, \<open>GetIFPresent\<close>, \<open>Refresh\<close>, \<open>Remove\<close> and \<open>Purge\<close> from
  the new cache ends without panic in a state with \<open>|T2| + |B2| \<le> 2N\<close> (indeed the four
  lists together hold at most \<open>2N\<close> keys), \<open>|T1 \<union> T2| \<le> N\<close>, no key twice in a list,
  the four lists pairwise disjoint, and \<open>0 \<le> p \<le> N\<close>. The bound \<open>|T1| + |B1| \<le> N\<close>
  holds as well when the run has no \<open>Remove\<close> and no \<open>SetWithExpire\<close> and the cache has
  no default expiration and no loader that sets one.
\<close>

theorem C2_arc_invariants:
  "0 < b_size cb \<longrightarrow>
     (case run arc_cache ops (newARC cb) of
        None \<Rightarrow> False
      | Some c \<Rightarrow>
          al_Len (t2 c) + al_Len (b2 c) \<le> 2 * b_size cb \<and>
          al_Len (t1 c) + al_Len (t2 c) + al_Len (b1 c) + al_Len (b2 c) \<le> 2 * b_size cb \<and>
          int (card (set (t1 c) \<union> set (t2 c))) \<le> b_size cb \<and>
          al_Len (t1 c) + al_Len (t2 c) \<le> b_size cb \<and>
          distinct (t1 c) \<and> distinct (t2 c) \<and> distinct (b1 c) \<and> distinct (b2 c) \<and>
          set (t1 c) \<inter> set (t2 c) = {} \<and> set (t1 c) \<inter> set (b1 c) = {} \<and>
          set (t1 c) \<inter> set (b2 c) = {} \<and> set (t2 c) \<inter> set (b1 c) = {} \<and>
          set (t2 c) \<inter> set (b2 c) = {} \<and> set (b1 c) \<inter> set (b2 c) = {} \<and>
          0 \<le> part c \<and> part c \<le> b_size cb \<and>
          (b_expiration cb = None \<and>
           (case b_loaderExpireFunc cb of None \<Rightarrow> True | Some f \<Rightarrow> \<forall>key. fst (snd (f key)) = None) \<and>
           list_all op_noexp ops \<longrightarrow>
             al_Len (t1 c) + al_Len (b1 c) \<le> b_size cb))"
proof
  assume N: "0 < b_size cb"
  from arc_run_sized[OF N, of ops] obtain c where
    r: "run arc_cache ops (newARC cb) = Some c" and s: "arc_sized (b_size cb) c" by blast
  from s have inv: "arc_inv c" and sz: "csize c = b_size cb" by (simp_all add: arc_sized_def)
  have card: "int (card (set (t1 c) \<union> set (t2 c))) \<le> b_size cb"
  proof -
    have "card (set (t1 c) \<union> set (t2 c)) \<le> card (set (t1 c)) + card (set (t2 c))"
      by (rule card_Un_le)
    also have "\<dots> \<le> length (t1 c) + length (t2 c)"
      by (intro add_mono card_length)
    finally show ?thesis using inv sz by (simp add: arc_inv_def al_Len_def)
  qed
  have strict: "al_Len (t1 c) + al_Len (b1 c) \<le> b_size cb"
    if "b_expiration cb = None \<and>
        (case b_loaderExpireFunc cb of None \<Rightarrow> True | Some f \<Rightarrow> \<forall>key. fst (snd (f key)) = None) \<and>
        list_all op_noexp ops"
  proof -
    from that arc_run_sized_noexp[OF N, of ops] obtain c' where
      "run arc_cache ops (newARC cb) = Some c'" "arc_sized_noexp (b_size cb) c'" by blast
    with r show ?thesis by (simp add: arc_sized_noexp_def arc_inv_noexp_def)
  qed
  from inv sz card strict r
  show "case run arc_cache ops (newARC cb) of
        None \<Rightarrow> False
      | Some c \<Rightarrow>
          al_Len (t2 c) + al_Len (b2 c) \<le> 2 * b_size cb \<and>
          al_Len (t1 c) + al_Len (t2 c) + al_Len (b1 c) + al_Len (b2 c) \<le> 2 * b_size cb \<and>
          int (card (set (t1 c) \<union> set (t2 c))) \<le> b_size cb \<and>
          al_Len (t1 c) + al_Len (t2 c) \<le> b_size cb \<and>
          distinct (t1 c) \<and> distinct (t2 c) \<and> distinct (b1 c) \<and> distinct (b2 c) \<and>
          set (t1 c) \<inter> set (t2 c) = {} \<and> set (t1 c) \<inter> set (b1 c) = {} \<and>
          set (t1 c) \<inter> set (b2 c) = {} \<and> set (t2 c) \<inter> set (b1 c) = {} \<and>
          set (t2 c) \<inter> set (b2 c) = {} \<and> set (b1 c) \<inter> set (b2 c) = {} \<and>
          0 \<le> part c \<and> part c \<le> b_size cb \<and>
          (b_expiration cb = None \<and>
           (case b_loaderExpireFunc cb of None \<Rightarrow> True | Some f \<Rightarrow> \<forall>key. fst (snd (f key)) = None) \<and>
           list_all op_noexp ops \<longrightarrow>
             al_Len (t1 c) + al_Len (b1 c) \<le> b_size cb)"
    by (auto simp: arc_inv_def al_Len_def)
qed

text \<open>C2 at a concrete run on a cache of capacity 2.\<close>

theorem C2_arc_invariants_witness:
  "0 < b_size (New 2 :: (string, nat) CacheBuilder) \<and>
   b_expiration (New 2 :: (string, nat) CacheBuilder) = None \<and>
   b_loaderExpireFunc (New 2 :: (string, nat) CacheBuilder) = None \<and>
   list_all op_noexp C2_ops \<and>
   (case run arc_cache C2_ops (newARC (New 2)) of
      None \<Rightarrow> False
    | Some c \<Rightarrow>
        t1 c = [''C''] \<and> t2 c = [''A''] \<and> b1 c = [''B''] \<and> b2 c = [] \<and> part c = 0 \<and>
        al_Len (t1 c) + al_Len (b1 c) \<le> 2 \<and> al_Len (t2 c) + al_Len (b2 c) \<le> 4 \<and>
        set (t1 c) \<inter> set (b1 c) = {})"
  using C2_arc_invariants[where cb = "New 2" and ops = C2_ops]
  by (simp add: C2_ops_def base_eval arc_eval facade_eval)

subsection \<open>C10: the frequency buckets of the LFU engine\<close>

text \<open>
  C10. After every run of operations from the new LFU cache, the bucket list is not
  empty, its first bucket has frequency 0, and each bucket has the frequency of its
  predecessor plus one (in \<open>uint\<close> arithmetic; read as numbers the frequencies are
  \<open>0, 1, 2, \<dots>\<close> as long as the list has at most \<open>2^64\<close> buckets, which memory enforces).
  Consequently \<open>increment\<close>, applied to any item of the map, succeeds and leaves the
  item in a bucket whose frequency is the frequency of its previous bucket plus one,
  although it never reads the frequency of the next bucket.
\<close>

theorem C10_lfu_bucket_frequencies:
  "case run lfu_cache ops (newLFUCache cb) of
     None \<Rightarrow> False
   | Some c \<Rightarrow>
       freqList c \<noteq> [] \<and> freq (hd (freqList c)) = 0 \<and>
       (\<forall>i. Suc i < length (freqList c) \<longrightarrow>
          freq (freqList c ! Suc i) = freq (freqList c ! i) + 1) \<and>
       (length (freqList c) \<le> 2 ^ 64 \<longrightarrow>
          map (\<lambda>fe. unat (freq fe)) (freqList c) = [0..<length (freqList c)]) \<and>
       (\<forall>key item. map_of (lfu_items c) key = Some item \<longrightarrow>
          (case lfu_increment key item c of
             None \<Rightarrow> False
           | Some c' \<Rightarrow>
               (case map_of (lfu_items c') key of
                  None \<Rightarrow> False
                | Some item' \<Rightarrow>
                    freqElement item' < length (freqList c') \<and>
                    key \<in> set (fe_items (freqList c' ! freqElement item')) \<and>
                    freq (freqList c' ! freqElement item') =
                      freq (freqList c ! freqElement item) + 1)))"
proof -
  from lfu_run_inv[of ops cb] obtain c where
    r: "run lfu_cache ops (newLFUCache cb) = Some c" and inv: "lfu_inv c" by blast
  from inv have ne: "freqList c \<noteq> []" by (simp add: lfu_inv_def)
  then have "hd (freqList c) = freqList c ! 0" by (simp add: hd_conv_nth)
  with lfu_inv_freq[OF inv, of 0] ne have h: "freq (hd (freqList c)) = 0" by simp
  have s: "freq (freqList c ! Suc i) = freq (freqList c ! i) + 1" if "Suc i < length (freqList c)" for i
    using lfu_inv_freq[OF inv that] lfu_inv_freq[OF inv, of i] that by simp
  show ?thesis
    unfolding r option.case
    using ne h s lfu_inv_unat[OF inv] lfu_increment_next[OF inv] by blast
qed

text \<open>The run \<open>Set(a,1); Get(a)\<close> on a cache of capacity 2, evaluated.\<close>

lemma C10_run_eval:
  "run lfu_cache C10_ops (newLFUCache (New 2)) =
     Some ((newLFUCache (New 2))
       \<lparr>hitCount := 1,
        lfu_items := [(''a'', \<lparr>item_value = 1, item_expiration = None, freqElement = 1\<rparr>)],
        freqList := [\<lparr>freq = 0, fe_items = []\<rparr>, \<lparr>freq = 1, fe_items = [''a'']\<rparr>]\<rparr>)"
  by (simp add: C10_ops_def base_eval lfu_eval facade_eval)

text \<open>C10 at that run: two buckets \<open>0, 1\<close>, and a further \<open>increment\<close> appends bucket 2.\<close>

theorem C10_lfu_bucket_frequencies_witness:
  "case run lfu_cache C10_ops (newLFUCache (New 2)) of
     None \<Rightarrow> False
   | Some c \<Rightarrow>
       Suc 0 < length (freqList c) \<and> freq (freqList c ! Suc 0) = freq (freqList c ! 0) + 1 \<and>
       length (freqList c) \<le> 2 ^ 64 \<and>
       map (\<lambda>fe. unat (freq fe)) (freqList c) = [0, 1] \<and>
       map_of (lfu_items c) ''a'' = Some \<lparr>item_value = 1, item_expiration = None, freqElement = 1\<rparr> \<and>
       (case lfu_increment ''a'' \<lparr>item_value = 1, item_expiration = None, freqElement = 1\<rparr> c of
          None \<Rightarrow> False
        | Some c' \<Rightarrow>
            map (\<lambda>fe. unat (freq fe)) (freqList c') = [0, 1, 2] \<and>
            map fe_items (freqList c') = [[], [], [''a'']] \<and>
            map_option freqElement (map_of (lfu_items c') ''a'') = Some 2)"
  using C10_lfu_bucket_frequencies[where ops = C10_ops and cb = "New 2"]
  by (simp add: C10_run_eval) (simp add: base_eval lfu_eval)

subsection \<open>C9: removing a key twice\<close>

text \<open>
  C9. For a key that the cache holds, \<open>Remove\<close> returns \<open>true\<close> and a second \<open>Remove\<close> of
  the same key returns \<open>false\<close>: for every state of a Simple, of an LFU and of an LRU
  cache, and for every state that an ARC cache of positive capacity reaches by a run of
  operations. In the ARC cache the first \<open>Remove\<close> leaves the key on a ghost list, and
  the second still returns \<open>false\<close>.
\<close>

theorem C9_remove_twice:
  "(map_of (items s) key \<noteq> None \<longrightarrow>
      (case simple_Remove key s of (r1, s1) \<Rightarrow> r1 \<and> \<not> fst (simple_Remove key s1))) \<and>
   (map_of (lfu_items l) key \<noteq> None \<longrightarrow>
      (case lfu_Remove key l of (r1, l1) \<Rightarrow> r1 \<and> \<not> fst (lfu_Remove key l1))) \<and>
   (map_of (evictList u) key \<noteq> None \<longrightarrow>
      (case lru_Remove key u of (r1, u1) \<Rightarrow> r1 \<and> \<not> fst (lru_Remove key u1))) \<and>
   (0 < b_size cb \<longrightarrow>
      (case run arc_cache ops (newARC cb) of
         None \<Rightarrow> False
       | Some a \<Rightarrow>
           map_of (arc_items a) key \<noteq> None \<longrightarrow>
             (case arc_Remove key a of
                None \<Rightarrow> False
              | Some (r1, a1) \<Rightarrow>
                  r1 \<and> key \<in> set (b1 a1 @ b2 a1) \<and>
                  (case arc_Remove key a1 of None \<Rightarrow> False | Some (r2, a2) \<Rightarrow> \<not> r2))))"
proof (intro conjI impI)
  assume "map_of (items s) key \<noteq> None"
  then show "case simple_Remove key s of (r1, s1) \<Rightarrow> r1 \<and> \<not> fst (simple_Remove key s1)"
    by (auto simp: simple_Remove_def simple_remove_def call_upd)
next
  assume "map_of (lfu_items l) key \<noteq> None"
  then show "case lfu_Remove key l of (r1, l1) \<Rightarrow> r1 \<and> \<not> fst (lfu_Remove key l1)"
    by (auto simp: lfu_Remove_def lfu_remove_def lfu_removeItem_def call_upd Let_def)
next
  assume "map_of (evictList u) key \<noteq> None"
  then show "case lru_Remove key u of (r1, u1) \<Rightarrow> r1 \<and> \<not> fst (lru_Remove key u1)"
    by (rule lru_Remove_twice)
next
  assume N: "0 < b_size cb"
  from arc_run_sized[OF N, of ops] obtain a where
    r: "run arc_cache ops (newARC cb) = Some a" and inv: "arc_inv a" by (auto simp: arc_sized_def)
  have "case arc_Remove key a of
                None \<Rightarrow> False
              | Some (r1, a1) \<Rightarrow>
                  r1 \<and> key \<in> set (b1 a1 @ b2 a1) \<and>
                  (case arc_Remove key a1 of None \<Rightarrow> False | Some (r2, a2) \<Rightarrow> \<not> r2)"
    if mo: "map_of (arc_items a) key \<noteq> None"
  proof -
    from mo have k: "key \<in> fst ` set (arc_items a)" by (simp add: map_of_eq_None_iff)
    from arc_remove_ok[OF inv, of key] k obtain a1 where
      r1: "arc_remove key a = Some (True, a1)" and inv1: "arc_inv a1"
      and nk: "key \<notin> set (t1 a1 @ t2 a1)" and g: "key \<in> set (b1 a1 @ b2 a1)"
      by auto
    from nk have "arc_remove key a1 = Some (False, a1)" by (simp add: arc_remove_def al_Has_def)
    with r1 g show ?thesis by (simp add: arc_Remove_def)
  qed
  with r show "case run arc_cache ops (newARC cb) of
         None \<Rightarrow> False
       | Some a \<Rightarrow>
           map_of (arc_items a) key \<noteq> None \<longrightarrow>
             (case arc_Remove key a of
                None \<Rightarrow> False
              | Some (r1, a1) \<Rightarrow>
                  r1 \<and> key \<in> set (b1 a1 @ b2 a1) \<and>
                  (case arc_Remove key a1 of None \<Rightarrow> False | Some (r2, a2) \<Rightarrow> \<not> r2))"
    by simp
qed

text \<open>C9 at concrete states holding the key.\<close>

theorem C9_remove_twice_witness:
  "map_of (items C9_simple) ''A'' \<noteq> None \<and>
   fst (simple_Remove ''A'' C9_simple) \<and>
   \<not> fst (simple_Remove ''A'' (snd (simple_Remove ''A'' C9_simple))) \<and>
   map_of (lfu_items C9_lfu) ''A'' \<noteq> None \<and>
   fst (lfu_Remove ''A'' C9_lfu) \<and>
   \<not> fst (lfu_Remove ''A'' (snd (lfu_Remove ''A'' C9_lfu))) \<and>
   map_of (evictList C9_lru) ''A'' \<noteq> None \<and>
   fst (lru_Remove ''A'' C9_lru) \<and>
   \<not> fst (lru_Remove ''A'' (snd (lru_Remove ''A'' C9_lru))) \<and>
   0 < b_size (New 2 :: (string, nat) CacheBuilder) \<and>
   (case run arc_cache C9_ops (newARC (New 2)) of
      None \<Rightarrow> False
    | Some a \<Rightarrow>
        map_of (arc_items a) ''B'' \<noteq> None \<and>
        (case arc_Remove ''B'' a of
           None \<Rightarrow> False
         | Some (r1, a1) \<Rightarrow>
             r1 \<and> b2 a1 = [''B''] \<and>
             (case arc_Remove ''B'' a1 of None \<Rightarrow> False | Some (r2, a2) \<Rightarrow> \<not> r2)))"
  using C9_remove_twice[where s = C9_simple and key = "''A''" and l = C9_lfu and u = C9_lru
      and cb = "New 2" and ops = C9_ops]
  by (simp add: C9_simple_def C9_lfu_def C9_lru_def C9_ops_def base_eval simple_eval lfu_eval
      lru_eval arc_eval facade_eval)

subsection \<open>C7: Purge\<close>

text \<open>
  C7. For every state of each of the four engines, \<open>Purge\<close> calls the purge visitor (when one is
  set) once for each entry of the item map, with its key and value and in the order of
  the map, and calls nothing else; afterwards \<open>Len(false)\<close> is 0 and the hit and miss
  counters are what they were.
\<close>

theorem C7_purge:
  "events (simple_Purge s) =
     events s @ (if purgeVisitorFunc s
                 then map (\<lambda>(k, item). PurgeVisited k (item_value item)) (items s) else []) \<and>
   simple_Len False now (simple_Purge s) = 0 \<and>
   hitCount (simple_Purge s) = hitCount s \<and> missCount (simple_Purge s) = missCount s \<and>
   events (lfu_Purge l) =
     events l @ (if purgeVisitorFunc l
                 then map (\<lambda>(k, item). PurgeVisited k (item_value item)) (lfu_items l) else []) \<and>
   lfu_Len False now (lfu_Purge l) = 0 \<and>
   hitCount (lfu_Purge l) = hitCount l \<and> missCount (lfu_Purge l) = missCount l \<and>
   events (arc_Purge a) =
     events a @ (if purgeVisitorFunc a
                 then map (\<lambda>(k, item). PurgeVisited k (item_value item)) (arc_items a) else []) \<and>
   arc_Len False now (arc_Purge a) = 0 \<and>
   hitCount (arc_Purge a) = hitCount a \<and> missCount (arc_Purge a) = missCount a \<and>
   events (lru_Purge u) =
     events u @ (if purgeVisitorFunc u
                 then map (\<lambda>(k, item). PurgeVisited k (item_value item)) (evictList u) else []) \<and>
   lru_Len False now (lru_Purge u) = 0 \<and>
   hitCount (lru_Purge u) = hitCount u \<and> missCount (lru_Purge u) = missCount u"
  by (simp add: simple_Purge_def simple_init_def simple_Len_def lfu_Purge_def lfu_init_def
      lfu_Len_def arc_Purge_def arc_init_def arc_Len_def lru_Purge_def lru_init_def lru_Len_def
      call_upd case_prod_unfold comp_def)

text \<open>
  C7 at a Simple and at an LRU cache with two entries, one of them with an expiration.
\<close>

theorem C7_purge_witness:
  "purgeVisitorFunc C7_simple \<and>
   events (simple_Purge C7_simple) = [PurgeVisited ''A'' 1, PurgeVisited ''B'' 2] \<and>
   simple_Len False 0 C7_simple = 2 \<and>
   simple_Len False 0 (simple_Purge C7_simple) = 0 \<and>
   hitCount (simple_Purge C7_simple) = 3 \<and> missCount (simple_Purge C7_simple) = 4 \<and>
   purgeVisitorFunc C7_lru \<and>
   events (lru_Purge C7_lru) = [PurgeVisited ''B'' 2, PurgeVisited ''A'' 1] \<and>
   lru_Len False 0 C7_lru = 2 \<and>
   lru_Len False 0 (lru_Purge C7_lru) = 0 \<and>
   hitCount (lru_Purge C7_lru) = 3 \<and> missCount (lru_Purge C7_lru) = 4"
  using C7_purge[where s = C7_simple and u = C7_lru and now = 0]
  by (simp add: C7_simple_def C7_lru_def base_eval simple_eval lru_eval)

subsection \<open>C5: expiration\<close>

text \<open>
  C5 as stated fails at the boundary. \<open>IsExpired\<close> is \<open>expiration.Before(now)\<close>, a strict
  comparison: an entry set with expiration 10 and read at \<open>now = 10\<close> is still reported by
  \<open>Existed\<close>, counted by \<open>Len(true)\<close> and returned by \<open>Get\<close>, and stays in the map.
\<close>

theorem C5_counterexample:
  "map_option (simple_Existed ''k'' 10) C5_run = Some True \<and>
   map_option (simple_Len True 10) C5_run = Some 1 \<and>
   map_option fst (Option.bind C5_run (Get simple_cache ''k'' 10)) = Some (Some 1, None) \<and>
   map_option items C5_run = Some [(''k'', \<lparr>item_value = 1, item_expiration = Some 10\<rparr>)]"
  by (simp add: C5_run_def base_eval simple_eval facade_eval)

text \<open>
  C5, amended. An entry whose expiration is \<open>e\<close> is treated as present exactly while
  \<open>now \<le> e\<close>. Once \<open>e < now\<close>, a value-returning read (\<open>get\<close>) returns
  \<open>KeyNotFoundError\<close>, removes the entry from the map and calls the evicted callback
  (when one is set) once with the key and the value; the read-only queries leave the entry
  alone and only hide it: \<open>Existed\<close> is false, \<open>Keys(true)\<close> and \<open>GetALL(true)\<close>
  omit the key, and \<open>Len(true)\<close> is smaller than \<open>Len(false)\<close>. Simple and LFU: every
  state; ARC: every state reached by a run of operations from a new cache of positive size.
\<close>

theorem C5_expired_reads:
  "(map_of (items s) key = Some item \<and> item_expiration item = Some e \<longrightarrow>
      (simple_Existed key now s \<longleftrightarrow> now \<le> e) \<and>
      (e < now \<longrightarrow>
         (case simple_get key onLoad now s of
            (r, s') \<Rightarrow>
              r = (None, Some ErrKeyNotFound) \<and> map_of (items s') key = None \<and>
              events s' = events s @ (if evictedFunc s then [Evicted key (item_value item)] else [])) \<and>
         key \<notin> set (simple_Keys True now s) \<and> key \<notin> fst ` set (simple_GetALL True now s) \<and>
         simple_Len True now s < simple_Len False now s)) \<and>
   (map_of (lfu_items l) key = Some litem \<and> item_expiration litem = Some e \<longrightarrow>
      (lfu_Existed key now l \<longleftrightarrow> now \<le> e) \<and>
      (e < now \<longrightarrow>
         (case lfu_get key onLoad now l of
            None \<Rightarrow> False
          | Some (r, l') \<Rightarrow>
              r = (None, Some ErrKeyNotFound) \<and> map_of (lfu_items l') key = None \<and>
              events l' = events l @ (if evictedFunc l then [Evicted key (item_value litem)] else [])) \<and>
         key \<notin> set (lfu_Keys True now l) \<and> key \<notin> fst ` set (lfu_GetALL True now l) \<and>
         lfu_Len True now l < lfu_Len False now l)) \<and>
   (0 < b_size cb \<longrightarrow>
      (case run arc_cache ops (newARC cb) of
         None \<Rightarrow> False
       | Some a \<Rightarrow>
           map_of (arc_items a) key = Some item \<and> item_expiration item = Some e \<longrightarrow>
             (arc_Existed key now a \<longleftrightarrow> now \<le> e) \<and>
             (e < now \<longrightarrow>
                (case arc_get key onLoad now a of
                   None \<Rightarrow> False
                 | Some (r, a') \<Rightarrow>
                     r = (None, Some ErrKeyNotFound) \<and> map_of (arc_items a') key = None \<and>
                     events a' =
                       events a @ (if evictedFunc a then [Evicted key (item_value item)] else [])) \<and>
                key \<notin> set (arc_Keys True now a) \<and> key \<notin> fst ` set (arc_GetALL True now a) \<and>
                arc_Len True now a < arc_Len False now a)))"
proof (intro conjI impI)
  assume h: "map_of (items s) key = Some item \<and> item_expiration item = Some e"
  then show "simple_Existed key now s \<longleftrightarrow> now \<le> e"
    by (simp add: simple_Existed_def has_item_expiration)
  assume lt: "e < now"
  from h lt have ex: "IsExpired item now" by (simp add: IsExpired_def)
  from h show "case simple_get key onLoad now s of
            (r, s') \<Rightarrow>
              r = (None, Some ErrKeyNotFound) \<and> map_of (items s') key = None \<and>
              events s' = events s @ (if evictedFunc s then [Evicted key (item_value item)] else [])"
    by (simp add: simple_get_expired[OF _ ex] call_upd)
  from h lt expired_reads[of "items s" key item e now]
  show "key \<notin> set (simple_Keys True now s)" "key \<notin> fst ` set (simple_GetALL True now s)"
    "simple_Len True now s < simple_Len False now s"
    by (simp_all add: simple_Keys_def simple_GetALL_def simple_Len_def)
next
  assume h: "map_of (lfu_items l) key = Some litem \<and> item_expiration litem = Some e"
  then show "lfu_Existed key now l \<longleftrightarrow> now \<le> e"
    by (simp add: lfu_Existed_def has_item_expiration)
  assume lt: "e < now"
  from h lt have ex: "IsExpired litem now" by (simp add: IsExpired_def)
  from h show "case lfu_get key onLoad now l of
            None \<Rightarrow> False
          | Some (r, l') \<Rightarrow>
              r = (None, Some ErrKeyNotFound) \<and> map_of (lfu_items l') key = None \<and>
              events l' = events l @ (if evictedFunc l then [Evicted key (item_value litem)] else [])"
    by (simp add: lfu_get_expired[OF _ ex] call_upd lfu_removeItem_def Let_def)
  from h lt expired_reads[of "lfu_items l" key litem e now]
  show "key \<notin> set (lfu_Keys True now l)" "key \<notin> fst ` set (lfu_GetALL True now l)"
    "lfu_Len True now l < lfu_Len False now l"
    by (simp_all add: lfu_Keys_def lfu_GetALL_def lfu_Len_def)
next
  assume N: "0 < b_size cb"
  from arc_run_sized[OF N, of ops] obtain a where
    r: "run arc_cache ops (newARC cb) = Some a" and inv: "arc_inv a" by (auto simp: arc_sized_def)
  have "(arc_Existed key now a \<longleftrightarrow> now \<le> e) \<and>
             (e < now \<longrightarrow>
                (case arc_get key onLoad now a of
                   None \<Rightarrow> False
                 | Some (r, a') \<Rightarrow>
                     r = (None, Some ErrKeyNotFound) \<and> map_of (arc_items a') key = None \<and>
                     events a' =
                       events a @ (if evictedFunc a then [Evicted key (item_value item)] else [])) \<and>
                key \<notin> set (arc_Keys True now a) \<and> key \<notin> fst ` set (arc_GetALL True now a) \<and>
                arc_Len True now a < arc_Len False now a)"
    if h: "map_of (arc_items a) key = Some item \<and> item_expiration item = Some e"
  proof (intro conjI impI)
    from h show "arc_Existed key now a \<longleftrightarrow> now \<le> e"
      by (simp add: arc_Existed_def has_item_expiration)
    assume lt: "e < now"
    from h lt have ex: "IsExpired item now" by (simp add: IsExpired_def)
    from h arc_get_expired[OF inv _ ex, of key onLoad]
    show "case arc_get key onLoad now a of
                   None \<Rightarrow> False
                 | Some (r, a') \<Rightarrow>
                     r = (None, Some ErrKeyNotFound) \<and> map_of (arc_items a') key = None \<and>
                     events a' =
                       events a @ (if evictedFunc a then [Evicted key (item_value item)] else [])"
      by auto
    from h lt expired_reads[of "arc_items a" key item e now]
    show "key \<notin> set (arc_Keys True now a)" "key \<notin> fst ` set (arc_GetALL True now a)"
      "arc_Len True now a < arc_Len False now a"
      by (simp_all add: arc_Keys_def arc_GetALL_def arc_Len_def)
  qed
  with r show "case run arc_cache ops (newARC cb) of
         None \<Rightarrow> False
       | Some a \<Rightarrow>
           map_of (arc_items a) key = Some item \<and> item_expiration item = Some e \<longrightarrow>
             (arc_Existed key now a \<longleftrightarrow> now \<le> e) \<and>
             (e < now \<longrightarrow>
                (case arc_get key onLoad now a of
                   None \<Rightarrow> False
                 | Some (r, a') \<Rightarrow>
                     r = (None, Some ErrKeyNotFound) \<and> map_of (arc_items a') key = None \<and>
                     events a' =
                       events a @ (if evictedFunc a then [Evicted key (item_value item)] else [])) \<and>
                key \<notin> set (arc_Keys True now a) \<and> key \<notin> fst ` set (arc_GetALL True now a) \<and>
                arc_Len True now a < arc_Len False now a)"
    by simp
qed

text \<open>C5 at an entry with expiration 10 read at time 11, in each engine.\<close>

theorem C5_expired_reads_witness:
  "map_of (items C5_simple) ''k'' = Some \<lparr>item_value = 1, item_expiration = Some 10\<rparr> \<and>
   \<not> simple_Existed ''k'' 11 C5_simple \<and>
   fst (simple_get ''k'' False 11 C5_simple) = (None, Some ErrKeyNotFound) \<and>
   items (snd (simple_get ''k'' False 11 C5_simple)) = [] \<and>
   events (snd (simple_get ''k'' False 11 C5_simple)) = [Evicted ''k'' 1] \<and>
   simple_Keys True 11 C5_simple = [] \<and> simple_GetALL True 11 C5_simple = [] \<and>
   simple_Len True 11 C5_simple = 0 \<and> simple_Len False 11 C5_simple = 1 \<and>
   map_of (lfu_items C5_lfu) ''k'' =
     Some \<lparr>item_value = 1, item_expiration = Some 10, freqElement = 0\<rparr> \<and>
   \<not> lfu_Existed ''k'' 11 C5_lfu \<and>
   map_option fst (lfu_get ''k'' False 11 C5_lfu) = Some (None, Some ErrKeyNotFound) \<and>
   map_option (events \<circ> snd) (lfu_get ''k'' False 11 C5_lfu) = Some [Evicted ''k'' 1] \<and>
   lfu_Len True 11 C5_lfu = 0 \<and> lfu_Len False 11 C5_lfu = 1 \<and>
   0 < b_size C5_cb \<and>
   (case run arc_cache C5_ops (newARC C5_cb) of
      None \<Rightarrow> False
    | Some a \<Rightarrow>
        map_of (arc_items a) ''k'' = Some \<lparr>item_value = 1, item_expiration = Some 10\<rparr> \<and>
        \<not> arc_Existed ''k'' 11 a \<and>
        map_option fst (arc_get ''k'' False 11 a) = Some (None, Some ErrKeyNotFound) \<and>
        map_option (events \<circ> snd) (arc_get ''k'' False 11 a) = Some [Evicted ''k'' 1] \<and>
        arc_Len True 11 a = 0 \<and> arc_Len False 11 a = 1)"
  using C5_expired_reads[where s = C5_simple and key = "''k''" and e = 10 and now = 11
      and item = "\<lparr>item_value = 1, item_expiration = Some 10\<rparr>" and onLoad = False
      and l = C5_lfu
      and litem = "\<lparr>item_value = 1, item_expiration = Some 10, freqElement = 0\<rparr>"
      and cb = C5_cb and ops = C5_ops]
  by (simp add: C5_simple_def C5_lfu_def C5_cb_def C5_ops_def base_eval simple_eval lfu_eval
      arc_eval facade_eval)


subsection \<open>C6: hit and miss counters\<close>

text \<open>
  C6 as stated fails. \<open>Get\<close> counts the lookup, not what it finally returns: on a cache
  with a loader, \<open>Get\<close> of an absent key counts a miss and then returns the loaded value;
  and a found entry counts a hit even when the deserialize hook then returns
  \<open>KeyNotFoundError\<close>.
\<close>

theorem C6_counterexample:
  "hitCount C6_loading = 0 \<and> missCount C6_loading = 0 \<and>
   map_option fst (Get simple_cache ''x'' 0 C6_loading) = Some (Some 7, None) \<and>
   map_option (hitCount \<circ> snd) (Get simple_cache ''x'' 0 C6_loading) = Some 0 \<and>
   map_option (missCount \<circ> snd) (Get simple_cache ''x'' 0 C6_loading) = Some 1 \<and>
   map_option hitCount C6_hooked = Some 0 \<and> map_option missCount C6_hooked = Some 0 \<and>
   map_option fst (Option.bind C6_hooked (Get simple_cache ''x'' 0)) =
     Some (None, Some ErrKeyNotFound) \<and>
   map_option (hitCount \<circ> snd) (Option.bind C6_hooked (Get simple_cache ''x'' 0)) = Some 1 \<and>
   map_option (missCount \<circ> snd) (Option.bind C6_hooked (Get simple_cache ''x'' 0)) = Some 0"
  by (simp add: C6_loading_def C6_loader_def C6_hooked_def C6_deserialize_def base_eval simple_eval
      facade_eval)

text \<open>
  C6, amended. A lookup with \<open>onLoad = true\<close> leaves both counters unchanged. A user
  lookup (\<open>onLoad = false\<close>), and so \<open>Get\<close> whatever the loader does afterwards, adds one to
  the hit counter and nothing to the miss counter when the key has an unexpired entry, and
  one to the miss counter and nothing to the hit counter otherwise. Hence a \<open>Get\<close> that
  returns no error on a cache without loader counts a hit, and a \<open>Get\<close> that returns
  \<open>KeyNotFoundError\<close> on a cache without deserialize hook counts a miss. Simple and LRU:
  every state; LFU and ARC: every state reached by a run of operations from a new cache
  (of positive size for ARC).
\<close>

theorem C6_counters:
  "(case simple_get key onLoad now s of
      (r, s') \<Rightarrow> if onLoad then same_stats s s' else counted (simple_Existed key now s) s s') \<and>
   (case Get simple_cache key now s of
      None \<Rightarrow> False
    | Some (r, s') \<Rightarrow>
        counted (simple_Existed key now s) s s' \<and>
        (loaderExpireFunc s = None \<and> snd r = None \<longrightarrow> counted True s s') \<and>
        (deserializeFunc s = None \<and> snd r = Some ErrKeyNotFound \<longrightarrow> counted False s s')) \<and>
   (case lru_get key onLoad now u of
      (r, u') \<Rightarrow> if onLoad then same_stats u u' else counted (lru_Existed key now u) u u') \<and>
   (case Get lru_cache key now u of
      None \<Rightarrow> False
    | Some (r, u') \<Rightarrow>
        counted (lru_Existed key now u) u u' \<and>
        (loaderExpireFunc u = None \<and> snd r = None \<longrightarrow> counted True u u') \<and>
        (deserializeFunc u = None \<and> snd r = Some ErrKeyNotFound \<longrightarrow> counted False u u')) \<and>
   (case run lfu_cache ops (newLFUCache cb) of
      None \<Rightarrow> False
    | Some l \<Rightarrow>
        (case lfu_get key onLoad now l of
           None \<Rightarrow> False
         | Some (r, l') \<Rightarrow>
             if onLoad then same_stats l l' else counted (lfu_Existed key now l) l l') \<and>
        (case Get lfu_cache key now l of
           None \<Rightarrow> False
         | Some (r, l') \<Rightarrow>
             counted (lfu_Existed key now l) l l' \<and>
             (loaderExpireFunc l = None \<and> snd r = None \<longrightarrow> counted True l l') \<and>
             (deserializeFunc l = None \<and> snd r = Some ErrKeyNotFound \<longrightarrow> counted False l l'))) \<and>
   (0 < b_size cb \<longrightarrow>
      (case run arc_cache ops (newARC cb) of
         None \<Rightarrow> False
       | Some a \<Rightarrow>
           (case arc_get key onLoad now a of
              None \<Rightarrow> False
            | Some (r, a') \<Rightarrow>
                if onLoad then same_stats a a' else counted (arc_Existed key now a) a a') \<and>
           (case Get arc_cache key now a of
              None \<Rightarrow> False
            | Some (r, a') \<Rightarrow>
                counted (arc_Existed key now a) a a' \<and>
                (loaderExpireFunc a = None \<and> snd r = None \<longrightarrow> counted True a a') \<and>
                (deserializeFunc a = None \<and> snd r = Some ErrKeyNotFound \<longrightarrow>
                   counted False a a'))))"
proof (intro conjI impI)
  from simple_get_stats[of key onLoad now s]
  show "case simple_get key onLoad now s of
      (r, s') \<Rightarrow> if onLoad then same_stats s s' else counted (simple_Existed key now s) s s'"
    by (auto simp: simple_Existed_def)
  from simple_Get_counted[of key now s]
  show "case Get simple_cache key now s of
      None \<Rightarrow> False
    | Some (r, s') \<Rightarrow>
        counted (simple_Existed key now s) s s' \<and>
        (loaderExpireFunc s = None \<and> snd r = None \<longrightarrow> counted True s s') \<and>
        (deserializeFunc s = None \<and> snd r = Some ErrKeyNotFound \<longrightarrow> counted False s s')"
    by auto
  from lru_get_stats[of key onLoad now u]
  show "case lru_get key onLoad now u of
      (r, u') \<Rightarrow> if onLoad then same_stats u u' else counted (lru_Existed key now u) u u'"
    by (auto simp: lru_Existed_def)
  from lru_Get_counted[of key now u]
  show "case Get lru_cache key now u of
      None \<Rightarrow> False
    | Some (r, u') \<Rightarrow>
        counted (lru_Existed key now u) u u' \<and>
        (loaderExpireFunc u = None \<and> snd r = None \<longrightarrow> counted True u u') \<and>
        (deserializeFunc u = None \<and> snd r = Some ErrKeyNotFound \<longrightarrow> counted False u u')"
    by auto
next
  from lfu_run_inv[of ops cb] obtain l where
    r: "run lfu_cache ops (newLFUCache cb) = Some l" and inv: "lfu_inv l" by blast
  from lfu_get_stats[OF inv, of key onLoad now]
  have 1: "case lfu_get key onLoad now l of
           None \<Rightarrow> False
         | Some (r, l') \<Rightarrow>
             if onLoad then same_stats l l' else counted (lfu_Existed key now l) l l'"
    by (auto simp: lfu_Existed_def)
  from lfu_Get_counted[OF inv, of key now]
  have 2: "case Get lfu_cache key now l of
           None \<Rightarrow> False
         | Some (r, l') \<Rightarrow>
             counted (lfu_Existed key now l) l l' \<and>
             (loaderExpireFunc l = None \<and> snd r = None \<longrightarrow> counted True l l') \<and>
             (deserializeFunc l = None \<and> snd r = Some ErrKeyNotFound \<longrightarrow> counted False l l')"
    by auto
  from r 1 2 show "case run lfu_cache ops (newLFUCache cb) of
      None \<Rightarrow> False
    | Some l \<Rightarrow>
        (case lfu_get key onLoad now l of
           None \<Rightarrow> False
         | Some (r, l') \<Rightarrow>
             if onLoad then same_stats l l' else counted (lfu_Existed key now l) l l') \<and>
        (case Get lfu_cache key now l of
           None \<Rightarrow> False
         | Some (r, l') \<Rightarrow>
             counted (lfu_Existed key now l) l l' \<and>
             (loaderExpireFunc l = None \<and> snd r = None \<longrightarrow> counted True l l') \<and>
             (deserializeFunc l = None \<and> snd r = Some ErrKeyNotFound \<longrightarrow> counted False l l'))"
    by simp
next
  assume N: "0 < b_size cb"
  from arc_run_sized[OF N, of ops] obtain a where
    r: "run arc_cache ops (newARC cb) = Some a" and inv: "arc_inv a" by (auto simp: arc_sized_def)
  from arc_get_stats[OF inv, of key onLoad now]
  have 1: "case arc_get key onLoad now a of
              None \<Rightarrow> False
            | Some (r, a') \<Rightarrow>
                if onLoad then same_stats a a' else counted (arc_Existed key now a) a a'"
    by (auto simp: arc_Existed_def)
  from arc_Get_counted[OF inv, of key now]
  have 2: "case Get arc_cache key now a of
              None \<Rightarrow> False
            | Some (r, a') \<Rightarrow>
                counted (arc_Existed key now a) a a' \<and>
                (loaderExpireFunc a = None \<and> snd r = None \<longrightarrow> counted True a a') \<and>
                (deserializeFunc a = None \<and> snd r = Some ErrKeyNotFound \<longrightarrow>
                   counted False a a')"
    by auto
  from r 1 2 show "case run arc_cache ops (newARC cb) of
         None \<Rightarrow> False
       | Some a \<Rightarrow>
           (case arc_get key onLoad now a of
              None \<Rightarrow> False
            | Some (r, a') \<Rightarrow>
                if onLoad then same_stats a a' else counted (arc_Existed key now a) a a') \<and>
           (case Get arc_cache key now a of
              None \<Rightarrow> False
            | Some (r, a') \<Rightarrow>
                counted (arc_Existed key now a) a a' \<and>
                (loaderExpireFunc a = None \<and> snd r = None \<longrightarrow> counted True a a') \<and>
                (deserializeFunc a = None \<and> snd r = Some ErrKeyNotFound \<longrightarrow>
                   counted False a a'))"
    by simp
qed

text \<open>C6 at a present and at an absent key of a cache with one entry, in each engine.\<close>

theorem C6_counters_witness:
  "loaderExpireFunc C6_simple = None \<and> deserializeFunc C6_simple = None \<and>
   map_option fst (Get simple_cache ''x'' 0 C6_simple) = Some (Some 1, None) \<and>
   map_option (hitCount \<circ> snd) (Get simple_cache ''x'' 0 C6_simple) = Some (hitCount C6_simple + 1) \<and>
   map_option (missCount \<circ> snd) (Get simple_cache ''x'' 0 C6_simple) = Some (missCount C6_simple) \<and>
   map_option fst (Get simple_cache ''y'' 0 C6_simple) = Some (None, Some ErrKeyNotFound) \<and>
   map_option (hitCount \<circ> snd) (Get simple_cache ''y'' 0 C6_simple) = Some (hitCount C6_simple) \<and>
   map_option (missCount \<circ> snd) (Get simple_cache ''y'' 0 C6_simple) = Some (missCount C6_simple + 1) \<and>
   same_stats C6_simple (snd (simple_get ''x'' True 0 C6_simple)) \<and>
   same_stats C6_simple (snd (simple_get ''y'' True 0 C6_simple)) \<and>
   loaderExpireFunc C6_lru = None \<and> deserializeFunc C6_lru = None \<and>
   map_option fst (Get lru_cache ''x'' 0 C6_lru) = Some (Some 1, None) \<and>
   map_option (hitCount \<circ> snd) (Get lru_cache ''x'' 0 C6_lru) = Some (hitCount C6_lru + 1) \<and>
   map_option (missCount \<circ> snd) (Get lru_cache ''x'' 0 C6_lru) = Some (missCount C6_lru) \<and>
   map_option fst (Get lru_cache ''y'' 0 C6_lru) = Some (None, Some ErrKeyNotFound) \<and>
   map_option (hitCount \<circ> snd) (Get lru_cache ''y'' 0 C6_lru) = Some (hitCount C6_lru) \<and>
   map_option (missCount \<circ> snd) (Get lru_cache ''y'' 0 C6_lru) = Some (missCount C6_lru + 1) \<and>
   same_stats C6_lru (snd (lru_get ''x'' True 0 C6_lru)) \<and>
   (case run lfu_cache C6_ops (newLFUCache (New 2)) of
      None \<Rightarrow> False
    | Some l \<Rightarrow>
        map_option fst (Get lfu_cache ''x'' 0 l) = Some (Some 1, None) \<and>
        map_option (hitCount \<circ> snd) (Get lfu_cache ''x'' 0 l) = Some (hitCount l + 1) \<and>
        map_option (missCount \<circ> snd) (Get lfu_cache ''x'' 0 l) = Some (missCount l) \<and>
        map_option fst (Get lfu_cache ''y'' 0 l) = Some (None, Some ErrKeyNotFound) \<and>
        map_option (hitCount \<circ> snd) (Get lfu_cache ''y'' 0 l) = Some (hitCount l) \<and>
        map_option (missCount \<circ> snd) (Get lfu_cache ''y'' 0 l) = Some (missCount l + 1)) \<and>
   0 < b_size (New 2 :: (string, nat) CacheBuilder) \<and>
   (case run arc_cache C6_ops (newARC (New 2)) of
      None \<Rightarrow> False
    | Some a \<Rightarrow>
        map_option fst (Get arc_cache ''x'' 0 a) = Some (Some 1, None) \<and>
        map_option (hitCount \<circ> snd) (Get arc_cache ''x'' 0 a) = Some (hitCount a + 1) \<and>
        map_option (missCount \<circ> snd) (Get arc_cache ''x'' 0 a) = Some (missCount a) \<and>
        map_option fst (Get arc_cache ''y'' 0 a) = Some (None, Some ErrKeyNotFound) \<and>
        map_option (hitCount \<circ> snd) (Get arc_cache ''y'' 0 a) = Some (hitCount a) \<and>
        map_option (missCount \<circ> snd) (Get arc_cache ''y'' 0 a) = Some (missCount a + 1))"
  using C6_counters[where s = C6_simple and u = C6_lru and key = "''x''" and now = 0
      and onLoad = True and cb = "New 2" and ops = C6_ops]
    C6_counters[where s = C6_simple and u = C6_lru and key = "''y''" and now = 0
      and onLoad = True and cb = "New 2" and ops = C6_ops]
  by (simp add: C6_simple_def C6_lru_def C6_ops_def counted_def same_stats_def base_eval
      simple_eval lfu_eval lru_eval arc_eval facade_eval)


end
